theory Spec2Isabelle
  imports Main "HOL-Library.Word" "HOL-Library.Multiset"
begin

section \<open>Target-side example functions\<close>

text \<open>
  The functions of the component-testing example are plain C over \<open>uint32_t\<close>.
  A \<open>uint32_t\<close> is a \<open>32 word\<close>: addition wraps modulo \<open>2 ^ 32\<close>, as unsigned
  arithmetic in C does.
\<close>

type_synonym u32 = "32 word"
type_synonym u8 = "8 word"

subsection \<open>Scalar arguments\<close>

definition example_Addition :: "u32 \<Rightarrow> u32 \<Rightarrow> u32" where
  "example_Addition a b = a + b"

definition example_ManyArgs :: "u32 \<Rightarrow> u32 \<Rightarrow> u32 \<Rightarrow> u32 \<Rightarrow> u32 \<Rightarrow> u32 \<Rightarrow> u32" where
  "example_ManyArgs a b c d e f = a + b + c + d + e + f"

subsection \<open>Pointer arguments\<close>

text \<open>
  Target memory as seen by \<open>example_AdditionPtr\<close>: a partial map from addresses to the
  \<open>uint32_t\<close> objects that live there. An address outside the domain is not a readable
  \<open>uint32_t\<close>; dereferencing it is undefined in C and is the value \<open>None\<close> here.
\<close>

type_synonym addr = "32 word"
type_synonym heap = "addr \<rightharpoonup> u32"

definition deref :: "heap \<Rightarrow> addr \<Rightarrow> u32 option" where
  "deref h p = h p"

definition example_AdditionPtr :: "heap \<Rightarrow> addr \<Rightarrow> addr \<Rightarrow> u32 option" where
  "example_AdditionPtr h a b =
     (case deref h a of
        None \<Rightarrow> None
      | Some va \<Rightarrow> (case deref h b of None \<Rightarrow> None | Some vb \<Rightarrow> Some (va + vb)))"

subsection \<open>Struct argument passed by value\<close>

record my_add_t =
  paddA :: u8
  a :: u32
  paddB :: u8
  b :: u32
  paddC :: u8
  sum :: u32

text \<open>
  Modelled from the spec: the macros \<open>DOTT_VAR_KEEP\<close> and \<open>DOTT_LABEL\<close> come from
  \<open>testhelpers.h\<close>, which is not part of the sources. The spec (section 6) describes
  labels as no-op functions whose only use is their address, so both leave the struct
  as it is.
\<close>

definition DOTT_VAR_KEEP :: "my_add_t \<Rightarrow> my_add_t" where
  "DOTT_VAR_KEEP ms = ms"

definition DOTT_LABEL :: "string \<Rightarrow> my_add_t \<Rightarrow> my_add_t" where
  "DOTT_LABEL name ms = ms"

text \<open>
  The body of \<open>example_AdditionStruct\<close>, run on the callee's own copy of the argument:
  the final state of that copy together with the returned value.
\<close>

definition example_AdditionStruct_body :: "my_add_t \<Rightarrow> my_add_t \<times> u32" where
  "example_AdditionStruct_body ms0 =
     (let ms1 = DOTT_VAR_KEEP ms0;
          ms2 = ms1\<lparr>sum := a ms1 + b ms1\<rparr>;
          ms3 = DOTT_LABEL ''example_AdditionStruct_EXIT'' ms2
      in (ms3, sum ms3))"

definition example_AdditionStruct :: "my_add_t \<Rightarrow> u32" where
  "example_AdditionStruct ms = snd (example_AdditionStruct_body ms)"

subsection \<open>The global function pointer\<close>

text \<open>
  \<open>func_ptr_t\<close> is a pointer to a function \<open>uint32_t (void)\<close>: either \<open>NULL\<close> or a
  function that returns a \<open>uint32_t\<close>. The only global of the file is \<open>func_a\<close>.
\<close>

datatype func_ptr_t = NULL | FnPtr "unit \<Rightarrow> u32"

record globals =
  func_a :: func_ptr_t

definition example_GetA :: "unit \<Rightarrow> u32" where
  "example_GetA u = (let a = 42 in a)"

definition globals_init :: globals where
  "globals_init = \<lparr>func_a = NULL\<rparr>"

definition example_FunctionPointers :: "globals \<Rightarrow> u32" where
  "example_FunctionPointers g =
     (let a = 10; b = 20;
          a = (case func_a g of NULL \<Rightarrow> a | FnPtr f \<Rightarrow> f ())
      in a + b)"

definition reg_func_ptr_a :: "globals \<Rightarrow> globals" where
  "reg_func_ptr_a g = g\<lparr>func_a := FnPtr example_GetA\<rparr>"

definition reg_func_ptr_null :: "globals \<Rightarrow> globals" where
  "reg_func_ptr_null g = g\<lparr>func_a := NULL\<rparr>"

definition reg_func_ptr_param :: "func_ptr_t \<Rightarrow> globals \<Rightarrow> globals" where
  "reg_func_ptr_param ptr g = g\<lparr>func_a := ptr\<rparr>"

subsection \<open>Results of the example functions\<close>

text \<open>
  C2. Invoking \<open>example_Addition\<close> with 31 and 11 returns 42; in general the result is
  the \<open>uint32_t\<close> sum of the two arguments, that is their sum modulo \<open>2 ^ 32\<close>.
\<close>

theorem example_Addition_sum:
  "example_Addition 31 11 = 42 \<and>
   unat (example_Addition x y) = (unat x + unat y) mod 2 ^ 32"
proof
  show "example_Addition 31 11 = 42"
    by (simp add: example_Addition_def)
  show "unat (example_Addition x y) = (unat x + unat y) mod 2 ^ 32"
    by (simp add: example_Addition_def unat_word_ariths)
qed

text \<open>
  The arithmetic of \<open>example_ManyArgs\<close>: the sum of its six arguments modulo \<open>2 ^ 32\<close>.
\<close>

lemma example_ManyArgs_sum:
  "unat (example_ManyArgs x1 x2 x3 x4 x5 x6) =
     (unat x1 + unat x2 + unat x3 + unat x4 + unat x5 + unat x6) mod 2 ^ 32"
proof -
  have "unat (x1 + x2 + x3 + x4 + x5 + x6) =
          (unat (x1 + x2 + x3 + x4 + x5) + unat x6) mod 2 ^ 32"
    by (simp add: unat_word_ariths)
  also have "unat (x1 + x2 + x3 + x4 + x5) = (unat (x1 + x2 + x3 + x4) + unat x5) mod 2 ^ 32"
    by (simp add: unat_word_ariths)
  also have "unat (x1 + x2 + x3 + x4) = (unat (x1 + x2 + x3) + unat x4) mod 2 ^ 32"
    by (simp add: unat_word_ariths)
  also have "unat (x1 + x2 + x3) = (unat (x1 + x2) + unat x3) mod 2 ^ 32"
    by (simp add: unat_word_ariths)
  also have "unat (x1 + x2) = (unat x1 + unat x2) mod 2 ^ 32"
    by (simp add: unat_word_ariths)
  finally show ?thesis
    by (simp add: example_ManyArgs_def mod_simps)
qed

text \<open>
  C8. For pointers to readable \<open>uint32_t\<close> objects, \<open>example_AdditionPtr\<close> returns the
  sum of the two objects modulo \<open>2 ^ 32\<close>; with the objects 9 and 12 it returns 21.
\<close>

theorem example_AdditionPtr_sum:
  assumes "h pa = Some va" and "h pb = Some vb"
  shows "\<exists>r. example_AdditionPtr h pa pb = Some r \<and>
             unat r = (unat va + unat vb) mod 2 ^ 32 \<and>
             (va = 9 \<and> vb = 12 \<longrightarrow> r = 21)"
proof -
  have ret: "example_AdditionPtr h pa pb = Some (va + vb)"
    using assms by (simp add: example_AdditionPtr_def deref_def)
  have "unat (va + vb) = (unat va + unat vb) mod 2 ^ 32"
    by (simp add: unat_word_ariths)
  moreover have "va = 9 \<and> vb = 12 \<longrightarrow> va + vb = 21"
    by simp
  ultimately show ?thesis
    using ret by blast
qed

theorem example_AdditionPtr_sum_witness:
  "example_AdditionPtr ([0x20000000 \<mapsto> 9, 0x20000004 \<mapsto> 12] :: heap)
     0x20000000 0x20000004 = Some 21"
proof -
  let ?h = "[0x20000000 \<mapsto> 9, 0x20000004 \<mapsto> 12] :: heap"
  have ha: "?h 0x20000000 = Some 9" by simp
  have hb: "?h 0x20000004 = Some 12" by simp
  from example_AdditionPtr_sum [OF ha hb]
  obtain r where r: "example_AdditionPtr ?h 0x20000000 0x20000004 = Some r"
    and "(9::u32) = 9 \<and> (12::u32) = 12 \<longrightarrow> r = 21"
    by blast
  then have "r = 21" by simp
  with r show ?thesis by (simp only:)
qed

text \<open>
  C7. For a \<open>my_add_t\<close> with \<open>a = 9\<close> and \<open>b = 12\<close>, whatever its padding bytes and its
  \<open>sum\<close> field hold, \<open>example_AdditionStruct\<close> returns 21. In general it returns
  \<open>a + b\<close>, stores it in the \<open>sum\<close> field of its own copy, and changes nothing else of
  that copy: the padding bytes \<open>paddA\<close>, \<open>paddB\<close>, \<open>paddC\<close> and the fields \<open>a\<close>, \<open>b\<close>
  are what the caller passed.
\<close>

theorem example_AdditionStruct_21:
  "example_AdditionStruct \<lparr>paddA = pA, a = 9, paddB = pB, b = 12, paddC = pC, sum = s\<rparr> = 21 \<and>
   example_AdditionStruct ms = a ms + b ms \<and>
   fst (example_AdditionStruct_body ms) = ms\<lparr>sum := a ms + b ms\<rparr> \<and>
   paddA (fst (example_AdditionStruct_body ms)) = paddA ms \<and>
   paddB (fst (example_AdditionStruct_body ms)) = paddB ms \<and>
   paddC (fst (example_AdditionStruct_body ms)) = paddC ms"
  by (simp add: example_AdditionStruct_def example_AdditionStruct_body_def
      DOTT_VAR_KEEP_def DOTT_LABEL_def Let_def)

text \<open>
  C10. \<open>example_FunctionPointers\<close> returns 30 when \<open>func_a\<close> is \<open>NULL\<close> and the value
  returned by the function \<open>func_a\<close> points to, plus 20, otherwise. \<open>example_GetA\<close>
  returns 42, so after \<open>reg_func_ptr_a\<close> the result is 62, and after
  \<open>reg_func_ptr_null\<close> it is 30 again.
\<close>

theorem example_FunctionPointers_result:
  "example_FunctionPointers g = (case func_a g of NULL \<Rightarrow> 30 | FnPtr f \<Rightarrow> f () + 20) \<and>
   example_FunctionPointers globals_init = 30 \<and>
   example_GetA () = 42 \<and>
   example_FunctionPointers (reg_func_ptr_a g) = 62 \<and>
   example_FunctionPointers (reg_func_ptr_null (reg_func_ptr_a g)) = 30"
proof -
  have "example_FunctionPointers g = (case func_a g of NULL \<Rightarrow> 30 | FnPtr f \<Rightarrow> f () + 20)"
    by (cases "func_a g") (simp_all add: example_FunctionPointers_def)
  moreover have "example_FunctionPointers globals_init = 30"
    by (simp add: example_FunctionPointers_def globals_init_def)
  moreover have "example_GetA () = 42"
    by (simp add: example_GetA_def)
  moreover have "example_FunctionPointers (reg_func_ptr_a g) = 62"
    by (simp add: example_FunctionPointers_def reg_func_ptr_a_def example_GetA_def)
  moreover have "example_FunctionPointers (reg_func_ptr_null (reg_func_ptr_a g)) = 30"
    by (simp add: example_FunctionPointers_def reg_func_ptr_null_def)
  ultimately show ?thesis by blast
qed

section \<open>The quicksort demo\<close>

text \<open>
  \<open>quicksort.c\<close> sorts a C \<open>int\<close> array in place. An \<open>int\<close> element is a \<open>32 word\<close>
  compared through \<open>sint\<close> (two's complement). The array is the list of its elements;
  the pointer \<open>&array[k]\<close> is the index \<open>k\<close>. The index variables \<open>low\<close>, \<open>high\<close>, \<open>i\<close>,
  \<open>j\<close>, \<open>pi\<close> are C \<open>int\<close>s: here they are mathematical integers, and every operation
  that C leaves undefined (an access outside the array, an \<open>int\<close> result outside
  \<open>INT_MIN .. INT_MAX\<close>) makes the function return \<open>None\<close>.
\<close>

type_synonym cint = "32 word"

definition INT_MIN :: int where
  "INT_MIN = - (2 ^ 31)"

definition INT_MAX :: int where
  "INT_MAX = 2 ^ 31 - 1"

definition int_ok :: "int \<Rightarrow> bool" where
  "int_ok v \<longleftrightarrow> INT_MIN \<le> v \<and> v \<le> INT_MAX"

definition in_bounds :: "cint list \<Rightarrow> int \<Rightarrow> bool" where
  "in_bounds array k \<longleftrightarrow> 0 \<le> k \<and> k < int (length array)"

definition swap :: "cint list \<Rightarrow> int \<Rightarrow> int \<Rightarrow> cint list option" where
  "swap array pa pb =
     (if in_bounds array pa \<and> in_bounds array pb then
        let t = array ! nat pa;
            array = array[nat pa := array ! nat pb];
            array = array[nat pb := t]
        in Some array
      else None)"

definition is_le :: "cint \<Rightarrow> cint \<Rightarrow> bool" where
  "is_le x y = (let ret_val = False;
                    ret_val = (if sint x \<le> sint y then True else ret_val)
                in ret_val)"

function partition_loop :: "cint list \<Rightarrow> cint \<Rightarrow> int \<Rightarrow> int \<Rightarrow> int \<Rightarrow> (cint list \<times> int) option" where
  "partition_loop array pivot high i j =
     (if j < high then
        (if \<not> in_bounds array j then None
         else if is_le (array ! nat j) pivot then
           (if \<not> int_ok (i + 1) then None
            else (case swap array (i + 1) j of
                    None \<Rightarrow> None
                  | Some array' \<Rightarrow>
                      if \<not> int_ok (j + 1) then None
                      else partition_loop array' pivot high (i + 1) (j + 1)))
         else if \<not> int_ok (j + 1) then None
         else partition_loop array pivot high i (j + 1))
      else Some (array, i))"
  by pat_completeness auto
termination
  by (relation "measure (\<lambda>(array, pivot, high, i, j). nat (high - j))") auto

definition partition :: "cint list \<Rightarrow> int \<Rightarrow> int \<Rightarrow> (cint list \<times> int) option" where
  "partition array low high =
     (if \<not> in_bounds array high then None
      else
        let pivot = array ! nat high in
        if \<not> int_ok (low - 1) then None
        else (case partition_loop array pivot high (low - 1) low of
                None \<Rightarrow> None
              | Some (array', i) \<Rightarrow>
                  if \<not> int_ok (i + 1) then None
                  else (case swap array' (i + 1) high of
                          None \<Rightarrow> None
                        | Some array'' \<Rightarrow> Some (array'', i + 1))))"

declare partition_loop.simps [simp del]

lemma partition_loop_cases:
  assumes "partition_loop array pivot high i j = Some (array', i')"
  obtains (exit) "\<not> j < high" "array' = array" "i' = i"
  | (swapped) array1 where "j < high" "in_bounds array j" "is_le (array ! nat j) pivot"
      "int_ok (i + 1)" "swap array (i + 1) j = Some array1" "int_ok (j + 1)"
      "partition_loop array1 pivot high (i + 1) (j + 1) = Some (array', i')"
  | (skipped) "j < high" "in_bounds array j" "\<not> is_le (array ! nat j) pivot" "int_ok (j + 1)"
      "partition_loop array pivot high i (j + 1) = Some (array', i')"
  using assms
  by (subst (asm) partition_loop.simps) (auto split: if_splits option.splits)


lemma partition_loop_index:
  "partition_loop array pivot high i j = Some (array', i') \<Longrightarrow> i < j \<Longrightarrow> j \<le> high \<Longrightarrow>
     i \<le> i' \<and> i' < high"
proof (induction array pivot high i j rule: partition_loop.induct)
  case (1 array pivot high i j)
  from "1.prems"(1) show ?case
  proof (cases rule: partition_loop_cases)
    case exit
    with "1.prems" show ?thesis by simp
  next
    case (swapped array1)
    with "1.IH"(1) [of array1] "1.prems" show ?thesis by simp
  next
    case skipped
    with "1.IH"(2) "1.prems" show ?thesis by simp
  qed
qed

lemma partition_index:
  assumes "partition array low high = Some (array', p)" and "low \<le> high"
  shows "low \<le> p \<and> p \<le> high"
proof -
  from assms(1) obtain array1 i where
    loop: "partition_loop array (array ! nat high) high (low - 1) low = Some (array1, i)"
    and p: "p = i + 1"
    by (auto simp: partition_def Let_def split: if_splits option.splits)
  from partition_loop_index [OF loop] assms(2) have "low - 1 \<le> i \<and> i < high" by simp
  with p show ?thesis by simp
qed

function quickSort :: "cint list \<Rightarrow> int \<Rightarrow> int \<Rightarrow> cint list option" where
  "quickSort array low high =
     (if low < high then
        (case partition array low high of
           None \<Rightarrow> None
         | Some (array1, pi) \<Rightarrow>
             if \<not> int_ok (pi - 1) then None
             else (case quickSort array1 low (pi - 1) of
                     None \<Rightarrow> None
                   | Some array2 \<Rightarrow>
                       if \<not> int_ok (pi + 1) then None
                       else quickSort array2 (pi + 1) high))
      else Some array)"
  by pat_completeness auto
termination
proof (relation "measure (\<lambda>(array, low, high). nat (high - low))", goal_cases)
  case 1
  show ?case by simp
next
  case (2 array low high x2 array1 p)
  then have "partition array low high = Some (array1, p)" by simp
  from partition_index [OF this] 2(1) have "low \<le> p \<and> p \<le> high" by simp
  with 2(1) show ?case by simp
next
  case (3 array low high x2 array1 p array2)
  then have "partition array low high = Some (array1, p)" by simp
  from partition_index [OF this] 3(1) have "low \<le> p \<and> p \<le> high" by simp
  with 3(1) show ?case by simp
qed

declare quickSort.simps [simp del]

subsection \<open>Swapping and the partition loop\<close>

lemma is_le_iff: "is_le x y \<longleftrightarrow> sint x \<le> sint y"
  by (simp add: is_le_def)

lemma swap_Some:
  assumes "swap array pa pb = Some array'"
  shows "in_bounds array pa" and "in_bounds array pb"
    and "array' = array[nat pa := array ! nat pb, nat pb := array ! nat pa]"
  using assms by (simp_all add: swap_def Let_def split: if_splits)

lemma in_bounds_nat: "in_bounds array k \<Longrightarrow> 0 \<le> k \<and> nat k < length array"
  by (auto simp: in_bounds_def)

lemma swap_length: "swap array pa pb = Some array' \<Longrightarrow> length array' = length array"
  by (drule swap_Some(3)) simp

lemma swap_mset:
  assumes "swap array pa pb = Some array'"
  shows "mset array' = mset array"
proof -
  from swap_Some [OF assms] have "nat pa < length array" "nat pb < length array"
    and eq: "array' = array[nat pa := array ! nat pb, nat pb := array ! nat pa]"
    by (simp_all add: in_bounds_nat)
  then show ?thesis
    using mset_swap [of "nat pb" array "nat pa"] by simp
qed

lemma swap_nth_other:
  assumes "swap array pa pb = Some array'" and "int n \<noteq> pa" and "int n \<noteq> pb"
  shows "array' ! n = array ! n"
proof -
  from swap_Some [OF assms(1)] have "0 \<le> pa" "0 \<le> pb"
    and eq: "array' = array[nat pa := array ! nat pb, nat pb := array ! nat pa]"
    by (simp_all add: in_bounds_def)
  with assms(2,3) have "n \<noteq> nat pa" "n \<noteq> nat pb" by auto
  with eq show ?thesis by simp
qed

lemma swap_nth_fst:
  assumes "swap array pa pb = Some array'"
  shows "array' ! nat pa = array ! nat pb"
proof -
  from swap_Some [OF assms] have "nat pa < length array" "nat pb < length array"
    and eq: "array' = array[nat pa := array ! nat pb, nat pb := array ! nat pa]"
    by (simp_all add: in_bounds_nat)
  then show ?thesis
    by (cases "nat pa = nat pb") simp_all
qed

lemma swap_nth_snd:
  assumes "swap array pa pb = Some array'"
  shows "array' ! nat pb = array ! nat pa"
proof -
  from swap_Some [OF assms] have "nat pa < length array" "nat pb < length array"
    and eq: "array' = array[nat pa := array ! nat pb, nat pb := array ! nat pa]"
    by (simp_all add: in_bounds_nat)
  then show ?thesis by simp
qed

lemma swap_succeeds:
  "in_bounds array pa \<Longrightarrow> in_bounds array pb \<Longrightarrow> \<exists>array'. swap array pa pb = Some array'"
  by (simp add: swap_def Let_def)

lemma partition_loop_length_mset:
  "partition_loop array pivot high i j = Some (array', i') \<Longrightarrow>
     length array' = length array \<and> mset array' = mset array"
proof (induction array pivot high i j rule: partition_loop.induct)
  case (1 array pivot high i j)
  from "1.prems"(1) show ?case
  proof (cases rule: partition_loop_cases)
    case exit
    then show ?thesis by simp
  next
    case (swapped array1)
    with "1.IH"(1) [of array1] swap_length [OF swapped(5)] swap_mset [OF swapped(5)]
    show ?thesis by simp
  next
    case skipped
    with "1.IH"(2) show ?thesis by simp
  qed
qed

lemma partition_loop_frame:
  "partition_loop array pivot high i j = Some (array', i') \<Longrightarrow> i < j \<Longrightarrow>
     int n \<le> i \<or> high \<le> int n \<Longrightarrow> array' ! n = array ! n"
proof (induction array pivot high i j rule: partition_loop.induct)
  case (1 array pivot high i j)
  from "1.prems"(1) show ?case
  proof (cases rule: partition_loop_cases)
    case exit
    then show ?thesis by simp
  next
    case (swapped array1)
    from swapped "1.prems" have "array' ! n = array1 ! n"
      using "1.IH"(1) [of array1] by auto
    moreover from swapped(1) "1.prems" have "int n \<noteq> i + 1" "int n \<noteq> j"
      by auto
    then have "array1 ! n = array ! n"
      by (rule swap_nth_other [OF swapped(5)])
    ultimately show ?thesis by simp
  next
    case skipped
    with "1.IH"(2) "1.prems" show ?thesis by auto
  qed
qed

lemma partition_loop_partitioned:
  "partition_loop array pivot high i j = Some (array', i') \<Longrightarrow> i < j \<Longrightarrow>
   (\<forall>n. i < int n \<and> int n < j \<longrightarrow> \<not> is_le (array ! n) pivot) \<Longrightarrow>
     (\<forall>n. i < int n \<and> int n \<le> i' \<longrightarrow> is_le (array' ! n) pivot) \<and>
     (\<forall>n. i' < int n \<and> int n < high \<longrightarrow> \<not> is_le (array' ! n) pivot)"
proof (induction array pivot high i j rule: partition_loop.induct)
  case (1 array pivot high i j)
  from "1.prems"(1) show ?case
  proof (cases rule: partition_loop_cases)
    case exit
    with "1.prems" show ?thesis by auto
  next
    case (swapped array1)
    note sw = swapped(5)
    from swap_Some [OF sw] have bi: "0 \<le> i + 1" and bj: "0 \<le> j"
      by (simp_all add: in_bounds_def)
    have pre: "\<forall>n. i + 1 < int n \<and> int n < j + 1 \<longrightarrow> \<not> is_le (array1 ! n) pivot"
    proof (intro allI impI)
      fix n assume n: "i + 1 < int n \<and> int n < j + 1"
      show "\<not> is_le (array1 ! n) pivot"
      proof (cases "int n = j")
        case True
        then have "n = nat j" by simp
        then have "array1 ! n = array ! nat (i + 1)"
          using swap_nth_snd [OF sw] by simp
        moreover from n True bi have "i < int (nat (i + 1)) \<and> int (nat (i + 1)) < j"
          by simp
        ultimately show ?thesis using "1.prems"(3) by simp
      next
        case False
        with n have "array1 ! n = array ! n"
          by (intro swap_nth_other [OF sw]) auto
        moreover from n False have "i < int n \<and> int n < j" by simp
        ultimately show ?thesis using "1.prems"(3) by simp
      qed
    qed
    from "1.IH"(1) [of array1] swapped "1.prems"(2) pre
    have ih: "(\<forall>n. i + 1 < int n \<and> int n \<le> i' \<longrightarrow> is_le (array' ! n) pivot) \<and>
              (\<forall>n. i' < int n \<and> int n < high \<longrightarrow> \<not> is_le (array' ! n) pivot)"
      by simp
    have "array' ! nat (i + 1) = array1 ! nat (i + 1)"
      using partition_loop_frame [OF swapped(7), of "nat (i + 1)"] "1.prems"(2) bi by simp
    also have "\<dots> = array ! nat j"
      by (rule swap_nth_fst [OF sw])
    finally have at: "is_le (array' ! nat (i + 1)) pivot"
      using swapped(3) by simp
    have "is_le (array' ! n) pivot" if "i < int n \<and> int n \<le> i'" for n
    proof (cases "int n = i + 1")
      case True
      then have "n = nat (i + 1)" by simp
      with at show ?thesis by simp
    next
      case False
      with that ih show ?thesis by simp
    qed
    moreover from partition_loop_index [OF swapped(7)] swapped(1) "1.prems"(2)
    have "i + 1 \<le> i'" by simp
    ultimately show ?thesis using ih by auto
  next
    case skipped
    have pre: "\<forall>n. i < int n \<and> int n < j + 1 \<longrightarrow> \<not> is_le (array ! n) pivot"
    proof (intro allI impI)
      fix n assume n: "i < int n \<and> int n < j + 1"
      show "\<not> is_le (array ! n) pivot"
      proof (cases "int n = j")
        case True
        then have "n = nat j" by simp
        with skipped(3) show ?thesis by simp
      next
        case False
        with n "1.prems"(3) show ?thesis by simp
      qed
    qed
    from "1.IH"(2) skipped "1.prems"(2) pre show ?thesis by simp
  qed
qed

lemma partition_loop_succeeds:
  "- 1 \<le> i \<Longrightarrow> i < j \<Longrightarrow> j \<le> high \<Longrightarrow> high \<le> int (length array) \<Longrightarrow> high \<le> INT_MAX \<Longrightarrow>
     \<exists>r. partition_loop array pivot high i j = Some r"
proof (induction array pivot high i j rule: partition_loop.induct)
  case (1 array pivot high i j)
  show ?case
  proof (cases "j < high")
    case False
    then show ?thesis by (subst partition_loop.simps) simp
  next
    case True
    with "1.prems" have inb: "in_bounds array j" and okj: "int_ok (j + 1)"
      and oki: "int_ok (i + 1)" and inbi: "in_bounds array (i + 1)"
      by (simp_all add: in_bounds_def int_ok_def INT_MIN_def INT_MAX_def)
    show ?thesis
    proof (cases "is_le (array ! nat j) pivot")
      case le: True
      from swap_succeeds [OF inbi inb] obtain array1
        where sw: "swap array (i + 1) j = Some array1" by blast
      from swap_length [OF sw] "1.prems" True
      have "\<exists>r. partition_loop array1 pivot high (i + 1) (j + 1) = Some r"
        using "1.IH"(1) [of array1] inb le oki okj sw by simp
      then show ?thesis
        using True inb le oki okj sw by (subst partition_loop.simps) simp
    next
      case gt: False
      from "1.prems" True have "\<exists>r. partition_loop array pivot high i (j + 1) = Some r"
        using "1.IH"(2) inb gt okj by simp
      then show ?thesis
        using True inb gt okj by (subst partition_loop.simps) simp
    qed
  qed
qed

subsection \<open>Partition\<close>

lemma partition_correct:
  assumes low: "0 \<le> low" and lh: "low \<le> high"
    and hl: "high < int (length array)" and hm: "high \<le> INT_MAX"
  shows "\<exists>array' p. partition array low high = Some (array', p) \<and>
           length array' = length array \<and> mset array' = mset array \<and>
           low \<le> p \<and> p \<le> high \<and>
           (\<forall>n. int n < low \<or> high < int n \<longrightarrow> array' ! n = array ! n) \<and>
           (\<forall>n. low \<le> int n \<and> int n < p \<longrightarrow> sint (array' ! n) \<le> sint (array' ! nat p)) \<and>
           (\<forall>n. p < int n \<and> int n \<le> high \<longrightarrow> sint (array' ! nat p) < sint (array' ! n))"
proof -
  let ?pivot = "array ! nat high"
  from low lh hl have inb: "in_bounds array high"
    by (simp add: in_bounds_def)
  from low lh hm have oklow: "int_ok (low - 1)"
    by (simp add: int_ok_def INT_MIN_def INT_MAX_def)
  from partition_loop_succeeds [of "low - 1" low high array ?pivot] low lh hl hm
  obtain array1 i where loop: "partition_loop array ?pivot high (low - 1) low = Some (array1, i)"
    by auto
  from partition_loop_index [OF loop] lh have ib: "low - 1 \<le> i" "i < high"
    by simp_all
  from partition_loop_length_mset [OF loop]
  have len1: "length array1 = length array" and mset1: "mset array1 = mset array"
    by simp_all
  have frame1: "array1 ! n = array ! n" if "int n < low \<or> high \<le> int n" for n
    using partition_loop_frame [OF loop, of n] that by auto
  have "\<forall>n. low - 1 < int n \<and> int n < low \<longrightarrow> \<not> is_le (array ! n) ?pivot"
    by auto
  from partition_loop_partitioned [OF loop _ this]
  have small: "\<And>n. low \<le> int n \<and> int n \<le> i \<Longrightarrow> is_le (array1 ! n) ?pivot"
    and large: "\<And>n. i < int n \<and> int n < high \<Longrightarrow> \<not> is_le (array1 ! n) ?pivot"
    by simp_all
  from ib low hm have oki: "int_ok (i + 1)"
    by (simp add: int_ok_def INT_MIN_def INT_MAX_def)
  from ib low hl len1 have inb1: "in_bounds array1 (i + 1)" "in_bounds array1 high"
    by (simp_all add: in_bounds_def)
  from swap_succeeds [OF inb1] obtain array2
    where sw: "swap array1 (i + 1) high = Some array2" by blast
  have part: "partition array low high = Some (array2, i + 1)"
    using inb oklow loop oki sw by (simp add: partition_def)
  have len2: "length array2 = length array"
    using swap_length [OF sw] len1 by simp
  have mset2: "mset array2 = mset array"
    using swap_mset [OF sw] mset1 by simp
  have pivot1: "array1 ! nat high = ?pivot"
    using frame1 [of "nat high"] low lh by simp
  have at_p: "array2 ! nat (i + 1) = ?pivot"
    using swap_nth_fst [OF sw] pivot1 by simp
  have at_high: "array2 ! nat high = array1 ! nat (i + 1)"
    by (rule swap_nth_snd [OF sw])
  have frame2: "array2 ! n = array ! n" if "int n < low \<or> high < int n" for n
  proof -
    from that ib have "int n \<noteq> i + 1" "int n \<noteq> high" by auto
    then have "array2 ! n = array1 ! n" by (rule swap_nth_other [OF sw])
    with frame1 [of n] that show ?thesis by auto
  qed
  have left: "sint (array2 ! n) \<le> sint (array2 ! nat (i + 1))"
    if "low \<le> int n \<and> int n < i + 1" for n
  proof -
    from that ib have "int n \<noteq> i + 1" "int n \<noteq> high" by auto
    then have "array2 ! n = array1 ! n" by (rule swap_nth_other [OF sw])
    with small [of n] that at_p show ?thesis by (simp add: is_le_iff)
  qed
  have right: "sint (array2 ! nat (i + 1)) < sint (array2 ! n)"
    if "i + 1 < int n \<and> int n \<le> high" for n
  proof (cases "int n = high")
    case True
    then have n: "n = nat high" by simp
    from that True ib low have "i < int (nat (i + 1)) \<and> int (nat (i + 1)) < high"
      by simp
    from large [OF this] at_high n at_p show ?thesis
      by (simp add: is_le_iff)
  next
    case False
    with that have "int n \<noteq> i + 1" "int n \<noteq> high" by auto
    then have "array2 ! n = array1 ! n" by (rule swap_nth_other [OF sw])
    with large [of n] that False at_p show ?thesis by (simp add: is_le_iff)
  qed
  from part len2 mset2 ib frame2 left right show ?thesis
    by (intro exI [of _ array2] exI [of _ "i + 1"]) simp
qed

subsection \<open>Segments of a list\<close>

lemma mset_segment_eq:
  fixes xs ys :: "'a list"
  assumes len: "length xs = length ys" and perm: "mset xs = mset ys"
    and frame: "\<forall>n. n < l \<or> h \<le> n \<longrightarrow> xs ! n = ys ! n"
  shows "mset (take (h - l) (drop l xs)) = mset (take (h - l) (drop l ys))"
proof (cases "l \<le> h")
  case False
  then show ?thesis by simp
next
  case True
  have split: "zs = take l zs @ take (h - l) (drop l zs) @ drop h zs" for zs :: "'a list"
  proof -
    have "drop l zs = take (h - l) (drop l zs) @ drop (h - l) (drop l zs)"
      by (rule append_take_drop_id [symmetric])
    also have "drop (h - l) (drop l zs) = drop h zs"
      using True by simp
    finally show ?thesis
      by (metis append_take_drop_id)
  qed
  have front: "take l xs = take l ys"
    by (rule nth_equalityI) (simp_all add: len frame)
  have rear: "drop h xs = drop h ys"
    by (rule nth_equalityI) (simp_all add: len frame)
  have "mset xs = mset (take l xs) + mset (take (h - l) (drop l xs)) + mset (drop h xs)"
    by (subst split [of xs]) (simp only: mset_append add.assoc)
  moreover have "mset ys = mset (take l ys) + mset (take (h - l) (drop l ys)) + mset (drop h ys)"
    by (subst split [of ys]) (simp only: mset_append add.assoc)
  ultimately show ?thesis
    using perm front rear by simp
qed

lemma segment_nth_source:
  fixes xs ys :: "'a list"
  assumes len: "length xs = length ys" and perm: "mset xs = mset ys"
    and frame: "\<forall>n. n < l \<or> h \<le> n \<longrightarrow> xs ! n = ys ! n"
    and n: "l \<le> n" "n < h" "h \<le> length xs"
  shows "\<exists>m. l \<le> m \<and> m < h \<and> xs ! n = ys ! m"
proof -
  let ?sx = "take (h - l) (drop l xs)" and ?sy = "take (h - l) (drop l ys)"
  from n have "?sx ! (n - l) = xs ! n" and "n - l < length ?sx"
    by simp_all
  then have "xs ! n \<in> set ?sx"
    by (metis nth_mem)
  also have "set ?sx = set ?sy"
    using mset_segment_eq [OF len perm frame] by (rule mset_eq_setD)
  finally obtain k where k: "k < length ?sy" "?sy ! k = xs ! n"
    by (auto simp: in_set_conv_nth)
  with n len have "l + k < h" "?sy ! k = ys ! (l + k)"
    by simp_all
  with k show ?thesis
    by (intro exI [of _ "l + k"]) simp
qed

subsection \<open>quickSort\<close>

lemma quickSort_correct:
  "0 \<le> low \<Longrightarrow> high < int (length array) \<Longrightarrow> int (length array) \<le> INT_MAX \<Longrightarrow>
   \<exists>r. quickSort array low high = Some r \<and> length r = length array \<and> mset r = mset array \<and>
       (\<forall>n. int n < low \<or> high < int n \<longrightarrow> r ! n = array ! n) \<and>
       (\<forall>m n. low \<le> int m \<and> m \<le> n \<and> int n \<le> high \<longrightarrow> sint (r ! m) \<le> sint (r ! n))"
proof (induction array low high rule: quickSort.induct)
  case (1 array low high)
  show ?case
  proof (cases "low < high")
    case False
    have "quickSort array low high = Some array"
      using False by (subst quickSort.simps) simp
    moreover have "sint (array ! m) \<le> sint (array ! n)"
      if "low \<le> int m \<and> m \<le> n \<and> int n \<le> high" for m n
    proof -
      from that False have "m = n" by linarith
      then show ?thesis by simp
    qed
    ultimately show ?thesis by simp
  next
    case True
    from "1.prems" have hm: "high \<le> INT_MAX" and low: "0 \<le> low"
      by simp_all
    from True have lh: "low \<le> high" by simp
    from partition_correct [OF low lh "1.prems"(2) hm]
    obtain array1 p where part: "partition array low high = Some (array1, p)"
      and len1: "length array1 = length array" and mset1: "mset array1 = mset array"
      and pb: "low \<le> p" "p \<le> high"
      and frame1: "\<And>n. int n < low \<or> high < int n \<Longrightarrow> array1 ! n = array ! n"
      and left1: "\<And>n. low \<le> int n \<and> int n < p \<Longrightarrow> sint (array1 ! n) \<le> sint (array1 ! nat p)"
      and right1: "\<And>n. p < int n \<and> int n \<le> high \<Longrightarrow> sint (array1 ! nat p) < sint (array1 ! n)"
      by blast
    let ?pv = "sint (array1 ! nat p)"
    from pb low "1.prems" have okp: "int_ok (p - 1)" "int_ok (p + 1)"
      by (simp_all add: int_ok_def INT_MIN_def INT_MAX_def)
    from "1.IH"(1) [OF True part refl] okp(1) low pb "1.prems" len1
    obtain array2 where q1: "quickSort array1 low (p - 1) = Some array2"
      and len2: "length array2 = length array1" and mset2: "mset array2 = mset array1"
      and frame2: "\<And>n. int n < low \<or> p - 1 < int n \<Longrightarrow> array2 ! n = array1 ! n"
      and sorted2: "\<And>m n. low \<le> int m \<and> m \<le> n \<and> int n \<le> p - 1 \<Longrightarrow>
                      sint (array2 ! m) \<le> sint (array2 ! n)"
      by fastforce
    from "1.IH"(2) [OF True part refl _ q1] okp low pb "1.prems" len1 len2
    obtain r where q2: "quickSort array2 (p + 1) high = Some r"
      and len3: "length r = length array2" and mset3: "mset r = mset array2"
      and frame3: "\<And>n. int n < p + 1 \<or> high < int n \<Longrightarrow> r ! n = array2 ! n"
      and sorted3: "\<And>m n. p + 1 \<le> int m \<and> m \<le> n \<and> int n \<le> high \<Longrightarrow>
                      sint (r ! m) \<le> sint (r ! n)"
      by fastforce
    have result: "quickSort array low high = Some r"
      using True part okp q1 q2 by (subst quickSort.simps) simp
    have frame: "r ! n = array ! n" if "int n < low \<or> high < int n" for n
    proof -
      from that pb have "r ! n = array2 ! n" by (intro frame3) auto
      also from that pb have "\<dots> = array1 ! n" by (intro frame2) auto
      also from that have "\<dots> = array ! n" by (rule frame1)
      finally show ?thesis .
    qed
    have at_p: "sint (r ! nat p) = ?pv"
    proof -
      from pb low have "r ! nat p = array2 ! nat p" by (intro frame3) simp
      also from pb low have "\<dots> = array1 ! nat p" by (intro frame2) simp
      finally show ?thesis by simp
    qed
    have below: "sint (r ! n) \<le> ?pv" if n: "low \<le> int n \<and> int n < p" for n
    proof -
      have "array2 ! k = array1 ! k" if "k < nat low \<or> nat p \<le> k" for k
      proof -
        from that low have "int k < low \<or> p - 1 < int k" by linarith
        then show ?thesis by (rule frame2)
      qed
      then have "\<forall>k. k < nat low \<or> nat p \<le> k \<longrightarrow> array2 ! k = array1 ! k"
        by blast
      moreover from n low pb "1.prems" len1 len2
      have "nat low \<le> n" "n < nat p" "nat p \<le> length array2"
        by linarith+
      ultimately obtain m where "nat low \<le> m" "m < nat p" "array2 ! n = array1 ! m"
        using segment_nth_source [OF len2 mset2, of "nat low" "nat p" n] by blast
      moreover from this low have "low \<le> int m \<and> int m < p" by linarith
      from left1 [OF this] have "sint (array1 ! m) \<le> ?pv" .
      ultimately have "sint (array2 ! n) \<le> ?pv" by simp
      moreover from n have "r ! n = array2 ! n" by (intro frame3) simp
      ultimately show ?thesis by simp
    qed
    have above: "?pv < sint (r ! n)" if n: "p < int n \<and> int n \<le> high" for n
    proof -
      have "r ! k = array2 ! k" if "k < nat (p + 1) \<or> nat (high + 1) \<le> k" for k
      proof -
        from that low pb have "int k < p + 1 \<or> high < int k" by linarith
        then show ?thesis by (rule frame3)
      qed
      then have "\<forall>k. k < nat (p + 1) \<or> nat (high + 1) \<le> k \<longrightarrow> r ! k = array2 ! k"
        by blast
      moreover from n low pb "1.prems" len1 len2 len3
      have "nat (p + 1) \<le> n" "n < nat (high + 1)" "nat (high + 1) \<le> length r"
        by linarith+
      ultimately obtain m where m: "nat (p + 1) \<le> m" "m < nat (high + 1)" "r ! n = array2 ! m"
        using segment_nth_source [OF len3 mset3, of "nat (p + 1)" "nat (high + 1)" n] by blast
      from m low pb have mb: "p < int m \<and> int m \<le> high" by linarith
      then have "array2 ! m = array1 ! m" by (intro frame2) simp
      with right1 [OF mb] m show ?thesis by simp
    qed
    have ordered: "sint (r ! m) \<le> sint (r ! n)"
      if mn: "low \<le> int m \<and> m \<le> n \<and> int n \<le> high" for m n
    proof -
      consider "int n < p" | "int n = p" | "p < int n \<and> int m < p" | "p < int n \<and> int m = p"
        | "p < int m" using mn by linarith
      then show ?thesis
      proof cases
        case 1
        with mn have "r ! m = array2 ! m" "r ! n = array2 ! n"
          by (auto intro!: frame3)
        with sorted2 [of m n] mn 1 show ?thesis by simp
      next
        case 2
        then have n: "n = nat p" by simp
        show ?thesis
        proof (cases "m = n")
          case True
          then show ?thesis by simp
        next
          case False
          with mn 2 have "low \<le> int m \<and> int m < p" by simp
          from below [OF this] at_p n show ?thesis by simp
        qed
      next
        case 3
        with mn below [of m] above [of n] show ?thesis by simp
      next
        case 4
        then have "m = nat p" by linarith
        with 4 mn above [of n] at_p show ?thesis by simp
      next
        case 5
        with mn sorted3 [of m n] show ?thesis by simp
      qed
    qed
    from result len1 len2 len3 mset1 mset2 mset3 frame ordered show ?thesis
      by (intro exI [of _ r]) simp
  qed
qed

text \<open>The elements \<open>array[low..high]\<close>, both ends included.\<close>

definition segment :: "cint list \<Rightarrow> int \<Rightarrow> int \<Rightarrow> cint list" where
  "segment array low high = take (nat (high + 1 - low)) (drop (nat low) array)"

text \<open>
  C9. For every \<open>int\<close> array (its length an \<open>int\<close>) and indices \<open>0 \<le> low\<close> and
  \<open>high < length\<close>, \<open>quickSort\<close> returns: it leaves the segment \<open>array[low..high]\<close> sorted
  in non-decreasing order, as a permutation of its initial contents, and every element
  outside \<open>low..high\<close> unchanged.
\<close>

theorem quickSort_sorts_segment:
  assumes "0 \<le> low" and "high < int (length array)" and "int (length array) \<le> INT_MAX"
  shows "\<exists>result. quickSort array low high = Some result \<and>
           length result = length array \<and>
           sorted (map sint (segment result low high)) \<and>
           mset (segment result low high) = mset (segment array low high) \<and>
           (\<forall>n<length array. int n < low \<or> high < int n \<longrightarrow> result ! n = array ! n)"
proof -
  from quickSort_correct [OF assms]
  obtain r where res: "quickSort array low high = Some r"
    and len: "length r = length array" and perm: "mset r = mset array"
    and frame: "\<And>n. int n < low \<or> high < int n \<Longrightarrow> r ! n = array ! n"
    and ordered: "\<And>m n. low \<le> int m \<and> m \<le> n \<and> int n \<le> high \<Longrightarrow> sint (r ! m) \<le> sint (r ! n)"
    by blast
  have width: "nat (high + 1 - low) = nat (high + 1) - nat low"
    using assms(1) by linarith
  have "sorted (map sint (segment r low high))"
    unfolding sorted_iff_nth_mono
  proof (intro allI impI)
    fix i j
    assume ij: "i \<le> j" and j: "j < length (map sint (segment r low high))"
    then have bounds: "j < nat (high + 1 - low)" "nat low + j < length r"
      by (auto simp: segment_def)
    with ij assms(1) have "low \<le> int (nat low + i) \<and> nat low + i \<le> nat low + j \<and>
        int (nat low + j) \<le> high"
      by linarith
    from ordered [OF this] ij bounds show "map sint (segment r low high) ! i \<le> map sint (segment r low high) ! j"
      by (simp add: segment_def)
  qed
  moreover have "mset (segment r low high) = mset (segment array low high)"
  proof -
    have "r ! n = array ! n" if "n < nat low \<or> nat (high + 1) \<le> n" for n
    proof -
      from that assms(1) have "int n < low \<or> high < int n" by linarith
      then show ?thesis by (rule frame)
    qed
    then have "\<forall>n. n < nat low \<or> nat (high + 1) \<le> n \<longrightarrow> r ! n = array ! n"
      by blast
    from mset_segment_eq [OF len perm this] show ?thesis
      by (simp add: segment_def width)
  qed
  ultimately show ?thesis
    using res len frame by blast
qed

text \<open>The call in \<open>main\<close>: \<open>int arr[] = { 4, 3, 5, 2, 1, 3, 2, 3 }; quickSort(arr, 0, n - 1)\<close>.\<close>

lemma main_quickSort:
  "quickSort [4, 3, 5, 2, 1, 3, 2, 3] 0 7 = Some [1, 2, 2, 3, 3, 3, 4, 5]"
  by code_simp

lemma quickSort_signed:
  "quickSort [4, 3, 5, 2, - 1, 3, 2, - 3] 0 7 = Some [- 3, - 1, 2, 2, 3, 3, 4, 5]"
  by code_simp

theorem quickSort_sorts_segment_witness:
  "\<exists>result. quickSort [4, 3, 5, 2, 1, 3, 2, 3] 0 7 = Some result \<and>
           length result = 8 \<and>
           sorted (map sint (segment result 0 7)) \<and>
           mset (segment result 0 7) = mset (segment [4, 3, 5, 2, 1, 3, 2, 3] 0 7)"
proof -
  have "(0::int) \<le> 0" "7 < int (length [4, 3, 5, 2, 1, 3, 2, 3 :: cint])"
    "int (length [4, 3, 5, 2, 1, 3, 2, 3 :: cint]) \<le> INT_MAX"
    by (simp_all add: INT_MAX_def)
  from quickSort_sorts_segment [OF this] show ?thesis
    by auto
qed

section \<open>Errors of the host-side engine\<close>

text \<open>
  Modelled from the spec: the host-side engine (allocator, marshaler, call engine) is
  not part of the sources. Its failures are the error taxonomy of section 7 of the
  spec; an operation that can fail returns \<open>error + 'a\<close>, with \<open>Inl\<close> for the failure.
\<close>

datatype error =
    ConnectionError | LoadError
  | UnknownSymbolError | TypeMismatchError | BufferOverflowError | InvalidAlignmentError
  | OutOfMemoryError | UnsupportedOperationError
  | TimeoutError | SessionBusyError | SessionClosedError

section \<open>On-target allocator: the PRESTACK strategy\<close>

text \<open>
  Modelled from the spec: the on-target allocator is host-side code that is not part of
  the sources. The spec (section 4.4) describes PRESTACK as a fixed-size region, claimed
  once with a configured byte budget, from which allocations are bump-allocated for the
  session's lifetime and never individually freed; \<open>alloc(size)\<close> fails with
  \<open>OutOfMemoryError\<close> when the budget is exhausted. An allocation region is
  \<open>{base, size, cursor}\<close>; the interface is \<open>alloc\<close>/\<open>free\<close>/\<open>reset\<close>.
  Target addresses are 32 bits wide; the host computes with unbounded integers. The
  field \<open>budget\<close> is the region's size in bytes, \<open>cursor\<close> the number of bytes handed
  out so far. \<open>alloc\<close> takes a size in bytes, as in the spec; the alignment of the
  requested type is not part of this model.
\<close>

record region =
  base :: addr
  budget :: nat
  cursor :: nat

definition claim_region :: "addr \<Rightarrow> nat \<Rightarrow> region" where
  "claim_region start n = \<lparr>base = start, budget = n, cursor = 0\<rparr>"

text \<open>
  Modelled from the spec: \<open>alloc(size)\<close> under PRESTACK hands out the next \<open>size\<close> bytes
  at the cursor, or fails with \<open>OutOfMemoryError\<close> when they do not fit the budget;
  \<open>free\<close> gives nothing back; \<open>reset\<close> is the full reset.
\<close>

definition alloc :: "region \<Rightarrow> nat \<Rightarrow> error + (addr \<times> region)" where
  "alloc r n =
     (if budget r < cursor r + n then Inl OutOfMemoryError
      else Inr (base r + of_nat (cursor r), r\<lparr>cursor := cursor r + n\<rparr>))"

definition free :: "region \<Rightarrow> addr \<Rightarrow> region" where
  "free r p = r"

definition reset :: "region \<Rightarrow> region" where
  "reset r = r\<lparr>cursor := 0\<rparr>"

text \<open>
  What a session does with its region between two points in time, short of a full
  reset: any sequence of allocation requests and frees. A failed request leaves the
  region as it is.
\<close>

datatype request = Alloc nat | Free addr

fun serve :: "region \<Rightarrow> request \<Rightarrow> region" where
  "serve r (Alloc n) = (case alloc r n of Inl e \<Rightarrow> r | Inr (p, r') \<Rightarrow> r')"
| "serve r (Free p) = free r p"

definition session :: "region \<Rightarrow> request list \<Rightarrow> region" where
  "session r reqs = foldl serve r reqs"

text \<open>
  The region lies in the 32-bit address space, and the cursor is inside the budget.
\<close>

definition region_ok :: "region \<Rightarrow> bool" where
  "region_ok r \<longleftrightarrow> unat (base r) + budget r \<le> 2 ^ 32 \<and> cursor r \<le> budget r"

text \<open>The bytes of a block of \<open>n\<close> bytes at address \<open>p\<close>, as offsets that do not wrap.\<close>

definition block :: "addr \<Rightarrow> nat \<Rightarrow> nat set" where
  "block p n = {unat p ..< unat p + n}"

lemma claim_region_ok: "region_ok (claim_region start n) \<longleftrightarrow> unat start + n \<le> 2 ^ 32"
  by (simp add: region_ok_def claim_region_def)

lemma serve_cursor_mono: "cursor r \<le> cursor (serve r q)"
  by (cases q) (auto simp: alloc_def free_def split: if_splits)

lemma serve_fixed: "base (serve r q) = base r \<and> budget (serve r q) = budget r"
  by (cases q) (auto simp: alloc_def free_def split: if_splits)

lemma session_fixed: "base (session r reqs) = base r \<and> budget (session r reqs) = budget r"
  unfolding session_def
  by (induction reqs arbitrary: r) (simp_all add: serve_fixed)

lemma session_cursor_mono: "cursor r \<le> cursor (session r reqs)"
  unfolding session_def
proof (induction reqs arbitrary: r)
  case Nil
  show ?case by simp
next
  case (Cons q reqs)
  have "cursor r \<le> cursor (serve r q)" by (rule serve_cursor_mono)
  also have "\<dots> \<le> cursor (foldl serve (serve r q) reqs)" by (rule Cons.IH)
  finally show ?case by simp
qed

lemma serve_ok: "region_ok r \<Longrightarrow> region_ok (serve r q)"
  by (cases q) (auto simp: alloc_def free_def region_ok_def split: if_splits)

lemma session_ok: "region_ok r \<Longrightarrow> region_ok (session r reqs)"
  unfolding session_def
  by (induction reqs arbitrary: r) (simp_all add: serve_ok)

lemma alloc_address:
  assumes ok: "region_ok r" and a: "alloc r n = Inr (p, r')" and n: "0 < n"
  shows "unat p = unat (base r) + cursor r"
proof -
  from a have p: "p = base r + of_nat (cursor r)" and fit: "cursor r + n \<le> budget r"
    by (auto simp: alloc_def split: if_splits)
  from ok fit n have lt: "unat (base r) + cursor r < 2 ^ 32"
    by (simp add: region_ok_def)
  then have "cursor r < 2 ^ 32" by simp
  then have "unat (of_nat (cursor r) :: addr) = cursor r"
    by (simp add: unat_of_nat)
  with lt show ?thesis
    unfolding p by (simp add: unat_word_ariths)
qed

lemma alloc_block:
  assumes ok: "region_ok r" and a: "alloc r n = Inr (p, r')"
  shows "block p n \<subseteq> {unat (base r) + cursor r ..< unat (base r) + cursor r'}"
    and "cursor r' = cursor r + n" and "cursor r' \<le> budget r"
proof -
  from a show c: "cursor r' = cursor r + n" and "cursor r' \<le> budget r"
    by (auto simp: alloc_def split: if_splits)
  show "block p n \<subseteq> {unat (base r) + cursor r ..< unat (base r) + cursor r'}"
  proof (cases "n = 0")
    case True
    then show ?thesis by (simp add: block_def)
  next
    case False
    with alloc_address [OF ok a] c show ?thesis by (simp add: block_def)
  qed
qed

lemma out_of_memory_persists:
  assumes "alloc r n = Inl OutOfMemoryError"
  shows "alloc (session r reqs) n = Inl OutOfMemoryError"
proof -
  from assms have "budget r < cursor r + n"
    by (auto simp: alloc_def split: if_splits)
  with session_cursor_mono [of r reqs] session_fixed [of r reqs]
  have "budget (session r reqs) < cursor (session r reqs) + n"
    by simp
  then show ?thesis by (simp add: alloc_def)
qed

text \<open>
  C4. Under PRESTACK, a request that would exceed the byte budget fails with
  \<open>OutOfMemoryError\<close> and leaves the region as it is. A request that is served gets a
  block that starts at the old cursor (the address does not wrap around) and lies
  inside the region, above every block handed out before; so nothing outside the
  region is ever overwritten. Once a request has failed, the same request fails again
  after any further allocations and frees: only a full reset makes room.
\<close>

theorem prestack_exhaustion:
  assumes "region_ok r"
  shows "(budget r < cursor r + n \<longrightarrow>
            alloc r n = Inl OutOfMemoryError \<and> serve r (Alloc n) = r) \<and>
         (\<forall>p r'. alloc r n = Inr (p, r') \<longrightarrow>
            region_ok r' \<and> cursor r' = cursor r + n \<and>
            (0 < n \<longrightarrow> unat p = unat (base r) + cursor r) \<and>
            block p n \<subseteq> {unat (base r) + cursor r ..< unat (base r) + cursor r'} \<and>
            block p n \<subseteq> {unat (base r) ..< unat (base r) + budget r}) \<and>
         (alloc r n = Inl OutOfMemoryError \<longrightarrow>
            (\<forall>reqs. alloc (session r reqs) n = Inl OutOfMemoryError)) \<and>
         (n \<le> budget r \<longrightarrow> (\<exists>p r'. alloc (reset r) n = Inr (p, r')))"
proof -
  have exceed: "alloc r n = Inl OutOfMemoryError \<and> serve r (Alloc n) = r"
    if "budget r < cursor r + n"
    using that by (simp add: alloc_def)
  have served: "region_ok r' \<and> cursor r' = cursor r + n \<and>
      (0 < n \<longrightarrow> unat p = unat (base r) + cursor r) \<and>
      block p n \<subseteq> {unat (base r) + cursor r ..< unat (base r) + cursor r'} \<and>
      block p n \<subseteq> {unat (base r) ..< unat (base r) + budget r}"
    if a: "alloc r n = Inr (p, r')" for p r'
  proof -
    from alloc_block [OF assms a]
    have sub: "block p n \<subseteq> {unat (base r) + cursor r ..< unat (base r) + cursor r'}"
      and c: "cursor r' = cursor r + n" and fit: "cursor r' \<le> budget r"
      by simp_all
    from a have "base r' = base r" "budget r' = budget r"
      by (auto simp: alloc_def split: if_splits)
    with assms fit have "region_ok r'"
      by (simp add: region_ok_def)
    moreover from sub fit have "block p n \<subseteq> {unat (base r) ..< unat (base r) + budget r}"
      by auto
    moreover have "0 < n \<longrightarrow> unat p = unat (base r) + cursor r"
      using alloc_address [OF assms a] by simp
    ultimately show ?thesis using sub c by simp
  qed
  have again: "\<forall>reqs. alloc (session r reqs) n = Inl OutOfMemoryError"
    if "alloc r n = Inl OutOfMemoryError"
    using that by (simp add: out_of_memory_persists)
  have fresh: "\<exists>p r'. alloc (reset r) n = Inr (p, r')" if "n \<le> budget r"
    using that by (simp add: alloc_def reset_def)
  from exceed served again fresh show ?thesis by blast
qed

theorem prestack_exhaustion_witness:
  "alloc \<lparr>base = 0x20003F00, budget = 16, cursor = 12\<rparr> 8 = Inl OutOfMemoryError \<and>
   alloc (session \<lparr>base = 0x20003F00, budget = 16, cursor = 12\<rparr> [Alloc 4, Free 0x20003F0C]) 8
     = Inl OutOfMemoryError \<and>
   alloc \<lparr>base = 0x20003F00, budget = 16, cursor = 12\<rparr> 4
     = Inr (0x20003F0C, \<lparr>base = 0x20003F00, budget = 16, cursor = 16\<rparr>) \<and>
   block 0x20003F0C 4 \<subseteq> {unat (0x20003F00 :: addr) ..< unat (0x20003F00 :: addr) + 16} \<and>
   (\<exists>p r'. alloc (reset \<lparr>base = 0x20003F00, budget = 16, cursor = 12\<rparr>) 8 = Inr (p, r'))"
proof -
  let ?r = "\<lparr>base = 0x20003F00, budget = 16, cursor = 12\<rparr>"
  have ok: "region_ok ?r"
    by (simp add: region_ok_def)
  have over: "budget ?r < cursor ?r + 8" and small: "(8::nat) \<le> budget ?r"
    by simp_all
  have a4: "alloc ?r 4 = Inr (0x20003F0C, \<lparr>base = 0x20003F00, budget = 16, cursor = 16\<rparr>)"
    by (simp add: alloc_def)
  from prestack_exhaustion [OF ok, of 8] over small
  have "alloc ?r 8 = Inl OutOfMemoryError"
    and "alloc (session ?r [Alloc 4, Free 0x20003F0C]) 8 = Inl OutOfMemoryError"
    and "\<exists>p r'. alloc (reset ?r) 8 = Inr (p, r')"
    by blast+
  moreover from prestack_exhaustion [OF ok, of 4] a4
  have "block 0x20003F0C 4 \<subseteq> {unat (base ?r) ..< unat (base ?r) + budget ?r}"
    by blast
  ultimately show ?thesis
    using a4 by simp
qed

section \<open>Value marshaler\<close>

text \<open>
  Modelled from the spec: the marshaler is host-side code that is not part of the
  sources. The spec (sections 3 and 4.3) gives a type descriptor as a recursive layout
  (size, field offsets including compiler padding) for scalar, struct, array and pointer
  types; \<open>encode(value, type)\<close> yields bytes, honouring target endianness and per-field
  offsets, and fails with \<open>TypeMismatchError\<close> if the value's shape (field set, element
  count) disagrees with the type; \<open>decode(bytes, type)\<close> is its inverse; pointers encode
  as native-width addresses (4 bytes on the 32-bit targets of this repository).

  A struct value lists its fields in declaration order. A scalar is an integer of a
  given byte width, signed or unsigned; a value outside the range of its type is stored
  modulo \<open>2 ^ (8 * width)\<close>, as a C conversion does. Padding bytes are written as zero
  and never read back.
\<close>

datatype endianness = Little | Big

datatype tdesc =
    Scalar nat bool
  | Pointer
  | Struct nat "(string \<times> nat \<times> tdesc) list"
  | Array nat tdesc

datatype val =
    VInt int
  | VPtr addr
  | VStruct "(string \<times> val) list"
  | VArray "val list"

text \<open>Scalar: width in bytes and signedness. Struct: total size and the fields as
  (name, offset, type). Array: element count and element type.\<close>

fun size_of :: "tdesc \<Rightarrow> nat" where
  "size_of (Scalar n sg) = n"
| "size_of Pointer = 4"
| "size_of (Struct n fs) = n"
| "size_of (Array k t) = k * size_of t"

fun le_bytes :: "nat \<Rightarrow> nat \<Rightarrow> u8 list" where
  "le_bytes 0 x = []"
| "le_bytes (Suc n) x = of_nat (x mod 256) # le_bytes n (x div 256)"

fun le_value :: "u8 list \<Rightarrow> nat" where
  "le_value [] = 0"
| "le_value (c # cs) = unat c + 256 * le_value cs"

definition order_bytes :: "endianness \<Rightarrow> u8 list \<Rightarrow> u8 list" where
  "order_bytes e cs = (case e of Little \<Rightarrow> cs | Big \<Rightarrow> rev cs)"

definition int_bytes :: "endianness \<Rightarrow> nat \<Rightarrow> int \<Rightarrow> u8 list" where
  "int_bytes e n i = order_bytes e (le_bytes n (nat (i mod 2 ^ (8 * n))))"

definition bytes_int :: "endianness \<Rightarrow> bool \<Rightarrow> u8 list \<Rightarrow> int" where
  "bytes_int e sg cs =
     (let u = int (le_value (order_bytes e cs)) in
      if sg \<and> 2 ^ (8 * length cs - 1) \<le> u then u - 2 ^ (8 * length cs) else u)"

definition write_at :: "u8 list \<Rightarrow> nat \<Rightarrow> u8 list \<Rightarrow> error + u8 list" where
  "write_at buf off cs =
     (if length buf < off + length cs then Inl BufferOverflowError
      else Inr (take off buf @ cs @ drop (off + length cs) buf))"

definition read_at :: "u8 list \<Rightarrow> nat \<Rightarrow> nat \<Rightarrow> error + u8 list" where
  "read_at buf off n =
     (if length buf < off + n then Inl BufferOverflowError
      else Inr (take n (drop off buf)))"

text \<open>
  Modelled from the spec: \<open>encode(value, type)\<close>. A struct starts as \<open>size\<close> zero bytes
  and each field is written at its declared offset; an array is its elements one
  after the other.
\<close>

fun encode :: "endianness \<Rightarrow> val \<Rightarrow> tdesc \<Rightarrow> error + u8 list"
  and encode_fields :: "endianness \<Rightarrow> u8 list \<Rightarrow> (string \<times> val) list \<Rightarrow> (string \<times> nat \<times> tdesc) list
      \<Rightarrow> error + u8 list"
  and encode_elems :: "endianness \<Rightarrow> val list \<Rightarrow> tdesc \<Rightarrow> error + u8 list"
where
  "encode e (VInt i) (Scalar n sg) = Inr (int_bytes e n i)"
| "encode e (VPtr p) Pointer = Inr (int_bytes e 4 (uint p))"
| "encode e (VStruct fvs) (Struct n fs) = encode_fields e (replicate n 0) fvs fs"
| "encode e (VArray vs) (Array k t) =
     (if length vs \<noteq> k then Inl TypeMismatchError else encode_elems e vs t)"
| "encode e _ _ = Inl TypeMismatchError"
| "encode_fields e buf [] [] = Inr buf"
| "encode_fields e buf ((name, v) # fvs) ((fname, off, t) # fs) =
     (if name \<noteq> fname then Inl TypeMismatchError
      else (case encode e v t of
              Inl err \<Rightarrow> Inl err
            | Inr cs \<Rightarrow>
                (case write_at buf off cs of
                   Inl err \<Rightarrow> Inl err
                 | Inr buf' \<Rightarrow> encode_fields e buf' fvs fs)))"
| "encode_fields e buf _ _ = Inl TypeMismatchError"
| "encode_elems e [] t = Inr []"
| "encode_elems e (v # vs) t =
     (case encode e v t of
        Inl err \<Rightarrow> Inl err
      | Inr cs \<Rightarrow>
          (case encode_elems e vs t of
             Inl err \<Rightarrow> Inl err
           | Inr rest \<Rightarrow> Inr (cs @ rest)))"

text \<open>
  Modelled from the spec: \<open>decode(bytes, type)\<close>. Each field of a struct is read at its
  declared offset; the bytes between the fields are not looked at.
\<close>

fun decode :: "endianness \<Rightarrow> u8 list \<Rightarrow> tdesc \<Rightarrow> error + val"
  and decode_fields :: "endianness \<Rightarrow> u8 list \<Rightarrow> (string \<times> nat \<times> tdesc) list
      \<Rightarrow> error + (string \<times> val) list"
  and decode_elems :: "endianness \<Rightarrow> u8 list \<Rightarrow> nat \<Rightarrow> tdesc \<Rightarrow> error + val list"
where
  "decode e cs (Scalar n sg) =
     (if length cs \<noteq> n then Inl TypeMismatchError else Inr (VInt (bytes_int e sg cs)))"
| "decode e cs Pointer =
     (if length cs \<noteq> 4 then Inl TypeMismatchError
      else Inr (VPtr (word_of_int (bytes_int e False cs))))"
| "decode e cs (Struct n fs) =
     (if length cs \<noteq> n then Inl TypeMismatchError
      else (case decode_fields e cs fs of
              Inl err \<Rightarrow> Inl err
            | Inr fvs \<Rightarrow> Inr (VStruct fvs)))"
| "decode e cs (Array k t) =
     (if length cs \<noteq> k * size_of t then Inl TypeMismatchError
      else (case decode_elems e cs k t of
              Inl err \<Rightarrow> Inl err
            | Inr vs \<Rightarrow> Inr (VArray vs)))"
| "decode_fields e buf [] = Inr []"
| "decode_fields e buf ((fname, off, t) # fs) =
     (case read_at buf off (size_of t) of
        Inl err \<Rightarrow> Inl err
      | Inr cs \<Rightarrow>
          (case decode e cs t of
             Inl err \<Rightarrow> Inl err
           | Inr v \<Rightarrow>
               (case decode_fields e buf fs of
                  Inl err \<Rightarrow> Inl err
                | Inr fvs \<Rightarrow> Inr ((fname, v) # fvs))))"
| "decode_elems e cs 0 t = Inr []"
| "decode_elems e cs (Suc k) t =
     (case decode e (take (size_of t) cs) t of
        Inl err \<Rightarrow> Inl err
      | Inr v \<Rightarrow>
          (case decode_elems e (drop (size_of t) cs) k t of
             Inl err \<Rightarrow> Inl err
           | Inr vs \<Rightarrow> Inr (v # vs)))"


definition fits :: "nat \<Rightarrow> bool \<Rightarrow> int \<Rightarrow> bool" where
  "fits n sg i =
     (if sg then - (2 ^ (8 * n - 1)) \<le> i \<and> i < 2 ^ (8 * n - 1)
      else 0 \<le> i \<and> i < 2 ^ (8 * n))"

definition apart :: "nat \<Rightarrow> nat \<Rightarrow> (string \<times> nat \<times> tdesc) list \<Rightarrow> bool" where
  "apart off n fs = list_all (\<lambda>(fname, off', t'). off + n \<le> off' \<or> off' + size_of t' \<le> off) fs"

fun wf_tdesc :: "tdesc \<Rightarrow> bool"
  and wf_fields :: "nat \<Rightarrow> (string \<times> nat \<times> tdesc) list \<Rightarrow> bool"
where
  "wf_tdesc (Scalar n sg) = (0 < n)"
| "wf_tdesc Pointer = True"
| "wf_tdesc (Struct n fs) = wf_fields n fs"
| "wf_tdesc (Array k t) = wf_tdesc t"
| "wf_fields n [] = True"
| "wf_fields n ((fname, off, t) # fs) =
     (wf_tdesc t \<and> off + size_of t \<le> n \<and> apart off (size_of t) fs \<and> wf_fields n fs)"

fun representable :: "val \<Rightarrow> tdesc \<Rightarrow> bool"
  and representable_fields :: "(string \<times> val) list \<Rightarrow> (string \<times> nat \<times> tdesc) list \<Rightarrow> bool"
  and representable_elems :: "val list \<Rightarrow> tdesc \<Rightarrow> bool"
where
  "representable (VInt i) (Scalar n sg) = fits n sg i"
| "representable (VPtr p) Pointer = True"
| "representable (VStruct fvs) (Struct n fs) = representable_fields fvs fs"
| "representable (VArray vs) (Array k t) = (length vs = k \<and> representable_elems vs t)"
| "representable _ _ = False"
| "representable_fields [] [] = True"
| "representable_fields ((name, v) # fvs) ((fname, off, t) # fs) =
     (name = fname \<and> representable v t \<and> representable_fields fvs fs)"
| "representable_fields _ _ = False"
| "representable_elems [] t = True"
| "representable_elems (v # vs) t = (representable v t \<and> representable_elems vs t)"

subsection \<open>Integers as bytes\<close>

lemma length_le_bytes: "length (le_bytes n x) = n"
  by (induction n arbitrary: x) simp_all

lemma le_value_le_bytes: "le_value (le_bytes n x) = x mod 256 ^ n"
proof (induction n arbitrary: x)
  case 0
  show ?case by simp
next
  case (Suc n)
  have "unat (of_nat (x mod 256) :: u8) = x mod 256"
    by (simp add: unat_of_nat)
  then have "le_value (le_bytes (Suc n) x) = x mod 256 + 256 * (x div 256 mod 256 ^ n)"
    by (simp add: Suc.IH)
  also have "\<dots> = x mod (256 * 256 ^ n)"
    by (simp add: mod_mult2_eq)
  finally show ?case by simp
qed

lemma order_bytes_twice: "order_bytes e (order_bytes e cs) = cs"
  by (cases e) (simp_all add: order_bytes_def)

lemma length_order_bytes: "length (order_bytes e cs) = length cs"
  by (cases e) (simp_all add: order_bytes_def)

lemma length_int_bytes: "length (int_bytes e n i) = n"
  by (simp add: int_bytes_def length_order_bytes length_le_bytes)

lemma pow_256: "(256::nat) ^ n = 2 ^ (8 * n)"
  by (simp add: power_mult)

lemma unsigned_value:
  "int (le_value (order_bytes e (int_bytes e n i))) = i mod 2 ^ (8 * n)"
  by (simp add: int_bytes_def order_bytes_twice le_value_le_bytes pow_256 zmod_int)

lemma bytes_int_int_bytes:
  assumes "fits n sg i" and "sg \<longrightarrow> 0 < n"
  shows "bytes_int e sg (int_bytes e n i) = i"
proof (cases sg)
  case False
  with assms have "i mod 2 ^ (8 * n) = i"
    by (simp add: fits_def)
  with False show ?thesis
    by (simp add: bytes_int_def unsigned_value length_int_bytes)
next
  case True
  with assms have n: "0 < n" and lo: "- (2 ^ (8 * n - 1)) \<le> i" and hi: "i < 2 ^ (8 * n - 1)"
    by (simp_all add: fits_def)
  from n have "8 * n = Suc (8 * n - 1)" by simp
  then have dbl: "(2::int) ^ (8 * n) = 2 * 2 ^ (8 * n - 1)"
    by (metis power_Suc)
  show ?thesis
  proof (cases "0 \<le> i")
    case nonneg: True
    with hi dbl have "i mod 2 ^ (8 * n) = i" by simp
    with True hi show ?thesis
      by (simp add: bytes_int_def unsigned_value length_int_bytes)
  next
    case neg: False
    have "i mod 2 ^ (8 * n) = (i + 2 ^ (8 * n)) mod 2 ^ (8 * n)"
      by simp
    also from neg lo dbl have "\<dots> = i + 2 ^ (8 * n)"
      by (intro mod_pos_pos_trivial) simp_all
    finally have "i mod 2 ^ (8 * n) = i + 2 ^ (8 * n)" .
    with True lo dbl show ?thesis
      by (simp add: bytes_int_def unsigned_value length_int_bytes)
  qed
qed

subsection \<open>Writing into and reading from a buffer\<close>

lemma write_at_Inr:
  assumes "write_at buf off cs = Inr buf'"
  shows "off + length cs \<le> length buf"
    and "buf' = take off buf @ cs @ drop (off + length cs) buf"
  using assms by (simp_all add: write_at_def split: if_splits)

lemma write_at_length:
  assumes "write_at buf off cs = Inr buf'"
  shows "length buf' = length buf"
proof -
  from write_at_Inr [OF assms] have "off + length cs \<le> length buf"
    and "buf' = take off buf @ cs @ drop (off + length cs) buf"
    by simp_all
  then show ?thesis by simp
qed

lemma write_at_nth:
  assumes w: "write_at buf off cs = Inr buf'" and j: "j < length buf"
  shows "buf' ! j = (if off \<le> j \<and> j < off + length cs then cs ! (j - off) else buf ! j)"
proof -
  from write_at_Inr [OF w] have fit: "off + length cs \<le> length buf"
    and eq: "buf' = take off buf @ cs @ drop (off + length cs) buf"
    by simp_all
  from fit j show ?thesis
    unfolding eq by (auto simp: nth_append)
qed

lemma read_write_same:
  assumes w: "write_at buf off cs = Inr buf'"
  shows "read_at buf' off (length cs) = Inr cs"
proof -
  from write_at_Inr [OF w] have fit: "off + length cs \<le> length buf"
    and eq: "buf' = take off buf @ cs @ drop (off + length cs) buf"
    by simp_all
  from fit have "take (length cs) (drop off buf') = cs"
    unfolding eq by simp
  with fit write_at_length [OF w] show ?thesis
    by (simp add: read_at_def)
qed

lemma read_write_apart:
  assumes w: "write_at buf off cs = Inr buf'"
    and apart: "o' + n \<le> off \<or> off + length cs \<le> o'"
  shows "read_at buf' o' n = read_at buf o' n"
proof (cases "length buf < o' + n")
  case True
  with write_at_length [OF w] show ?thesis
    by (simp add: read_at_def)
next
  case False
  have "take n (drop o' buf') = take n (drop o' buf)"
  proof (rule nth_equalityI)
    show "length (take n (drop o' buf')) = length (take n (drop o' buf))"
      using write_at_length [OF w] by simp
  next
    fix k assume "k < length (take n (drop o' buf'))"
    with False write_at_length [OF w] have k: "k < n" "o' + k < length buf"
      by simp_all
    with apart have "\<not> (off \<le> o' + k \<and> o' + k < off + length cs)"
      by auto
    with write_at_nth [OF w k(2)] have "buf' ! (o' + k) = buf ! (o' + k)"
      by simp
    with k write_at_length [OF w] show "take n (drop o' buf') ! k = take n (drop o' buf) ! k"
      by simp
  qed
  with False write_at_length [OF w] show ?thesis
    by (simp add: read_at_def)
qed

lemma apart_Cons:
  "apart o' n ((fname, off, t) # fs) \<longleftrightarrow>
     (o' + n \<le> off \<or> off + size_of t \<le> o') \<and> apart o' n fs"
  by (simp add: apart_def)

subsection \<open>Encoding followed by decoding\<close>

lemma roundtrip_all:
  shows "wf_tdesc T \<Longrightarrow> representable v T \<Longrightarrow>
           \<exists>cs. encode e v T = Inr cs \<and> length cs = size_of T \<and> decode e cs T = Inr v"
    and "wf_fields (length buf) fs \<Longrightarrow> representable_fields fvs fs \<Longrightarrow>
           \<exists>buf'. encode_fields e buf fvs fs = Inr buf' \<and> length buf' = length buf \<and>
                  decode_fields e buf' fs = Inr fvs \<and>
                  (\<forall>o' n. apart o' n fs \<longrightarrow> read_at buf' o' n = read_at buf o' n)"
    and "wf_tdesc t \<Longrightarrow> representable_elems vs t \<Longrightarrow>
           \<exists>cs. encode_elems e vs t = Inr cs \<and> length cs = length vs * size_of t \<and>
                decode_elems e cs (length vs) t = Inr vs"
proof (induction e v T and e buf fvs fs and e vs t
    rule: encode_encode_fields_encode_elems.induct)
  case (1 e i n sg)
  then have "bytes_int e sg (int_bytes e n i) = i"
    by (intro bytes_int_int_bytes) simp_all
  then show ?case
    by (simp add: length_int_bytes)
next
  case (2 e p)
  have "fits 4 False (uint p)"
    using uint_lt2p [of p] by (simp add: fits_def)
  then have "bytes_int e False (int_bytes e 4 (uint p)) = uint p"
    by (intro bytes_int_int_bytes) simp_all
  then show ?case
    by (simp add: length_int_bytes)
next
  case (3 e fvs n fs)
  from "3.IH" "3.prems" obtain buf' where
    "encode_fields e (replicate n 0) fvs fs = Inr buf'" "length buf' = n"
    "decode_fields e buf' fs = Inr fvs"
    by auto
  then show ?case by simp
next
  case (4 e vs k t)
  from "4.IH" "4.prems" obtain cs where
    "encode_elems e vs t = Inr cs" "length cs = length vs * size_of t"
    "decode_elems e cs (length vs) t = Inr vs"
    by auto
  with "4.prems" show ?case by auto
next
  case (6 e buf)
  show ?case by simp
next
  case (7 e buf name v fvs fname off t fs)
  from "7.prems" have nm: "name = fname" and wft: "wf_tdesc t"
    and fit: "off + size_of t \<le> length buf" and ap: "apart off (size_of t) fs"
    and wfs: "wf_fields (length buf) fs"
    and rv: "representable v t" and rfs: "representable_fields fvs fs"
    by simp_all
  from "7.IH"(1) nm wft rv obtain cs where
    enc: "encode e v t = Inr cs" and len: "length cs = size_of t" and dec: "decode e cs t = Inr v"
    by auto
  from fit len obtain buf1 where w: "write_at buf off cs = Inr buf1"
    by (auto simp: write_at_def)
  note len1 = write_at_length [OF w]
  from "7.IH"(2) [of cs buf1] nm enc w wfs rfs len1 obtain buf2 where
    encs: "encode_fields e buf1 fvs fs = Inr buf2" and len2: "length buf2 = length buf1"
    and decs: "decode_fields e buf2 fs = Inr fvs"
    and frame: "\<And>o' n. apart o' n fs \<Longrightarrow> read_at buf2 o' n = read_at buf1 o' n"
    by auto
  have "read_at buf2 off (size_of t) = read_at buf1 off (size_of t)"
    using ap by (rule frame)
  also have "\<dots> = Inr cs"
    using read_write_same [OF w] len by simp
  finally have rd: "read_at buf2 off (size_of t) = Inr cs" .
  have "read_at buf2 o' n = read_at buf o' n" if "apart o' n ((fname, off, t) # fs)" for o' n
  proof -
    from that have a1: "o' + n \<le> off \<or> off + size_of t \<le> o'" and a2: "apart o' n fs"
      by (simp_all add: apart_Cons)
    from a2 have "read_at buf2 o' n = read_at buf1 o' n" by (rule frame)
    also from a1 len have "\<dots> = read_at buf o' n"
      by (intro read_write_apart [OF w]) simp
    finally show ?thesis .
  qed
  with nm enc w encs len2 len1 decs rd dec show ?case
    by simp
next
  case (9 e t)
  show ?case by simp
next
  case (10 e v vs t)
  from "10.IH"(1) "10.prems" obtain cs where
    enc: "encode e v t = Inr cs" and len: "length cs = size_of t" and dec: "decode e cs t = Inr v"
    by auto
  from "10.IH"(2) [OF enc] "10.prems" obtain rest where
    encs: "encode_elems e vs t = Inr rest" and lens: "length rest = length vs * size_of t"
    and decs: "decode_elems e rest (length vs) t = Inr vs"
    by auto
  from enc encs len lens dec decs show ?case
    by simp
qed simp_all

text \<open>
  The layout of \<open>my_add_t\<close> as the compiler for the Cortex-M target lays it out: each
  one-byte padding field is followed by three bytes of compiler padding.
\<close>

definition my_add_t_desc :: tdesc where
  "my_add_t_desc = Struct 24
     [(''paddA'', 0, Scalar 1 False), (''a'', 4, Scalar 4 False),
      (''paddB'', 8, Scalar 1 False), (''b'', 12, Scalar 4 False),
      (''paddC'', 16, Scalar 1 False), (''sum'', 20, Scalar 4 False)]"

text \<open>
  C1. For every well-formed type descriptor (scalars, pointers, structs with padding,
  fixed arrays, nested at will), either byte order and every value representable in
  the type, \<open>encode\<close> succeeds, yields as many bytes as the type is wide, and \<open>decode\<close>
  of these bytes is the value.
\<close>

theorem decode_encode:
  assumes "wf_tdesc T" and "representable v T"
  shows "\<exists>cs. encode e v T = Inr cs \<and> length cs = size_of T \<and> decode e cs T = Inr v"
  using assms by (rule roundtrip_all(1))

lemma encode_my_add_t:
  "encode Little
     (VStruct [(''paddA'', VInt 1), (''a'', VInt 9), (''paddB'', VInt 2), (''b'', VInt 12),
               (''paddC'', VInt 3), (''sum'', VInt 0)]) my_add_t_desc
   = Inr [1, 0, 0, 0, 9, 0, 0, 0, 2, 0, 0, 0, 12, 0, 0, 0, 3, 0, 0, 0, 0, 0, 0, 0]"
  by code_simp

theorem decode_encode_witness:
  "\<exists>cs. encode Big
          (VStruct [(''tag'', VInt (- 2)), (''next'', VPtr 0x20000010),
                    (''xs'', VArray [VInt 300, VInt (- 1)])])
          (Struct 12 [(''tag'', 0, Scalar 1 True), (''next'', 4, Pointer),
                      (''xs'', 8, Array 2 (Scalar 2 True))]) = Inr cs \<and>
        length cs = 12 \<and>
        decode Big cs
          (Struct 12 [(''tag'', 0, Scalar 1 True), (''next'', 4, Pointer),
                      (''xs'', 8, Array 2 (Scalar 2 True))])
          = Inr (VStruct [(''tag'', VInt (- 2)), (''next'', VPtr 0x20000010),
                          (''xs'', VArray [VInt 300, VInt (- 1)])])"
proof -
  let ?T = "Struct 12 [(''tag'', 0, Scalar 1 True), (''next'', 4, Pointer),
                       (''xs'', 8, Array 2 (Scalar 2 True))]"
  let ?v = "VStruct [(''tag'', VInt (- 2)), (''next'', VPtr 0x20000010),
                     (''xs'', VArray [VInt 300, VInt (- 1)])]"
  have wf: "wf_tdesc ?T"
    by (simp add: apart_def)
  have rep: "representable ?v ?T"
    by (simp add: fits_def)
  from decode_encode [OF wf rep, of Big] show ?thesis
    by simp
qed

section \<open>Call engine\<close>

text \<open>
  Modelled from the spec: the call engine is host-side code that is not part of the
  sources. Section 4.5 of the spec gives the protocol of \<open>invoke(function, args)\<close>:
  (1) halt the target if it runs, keeping what to do afterwards; (2) place scalar
  arguments in the argument registers and spill those beyond the register budget to
  the stack; (3) save the full register and stack context; (4) write a synthetic call:
  program counter at the function, return address at a reserved trap location, stack
  adjusted as required; (5) resume until the trap is reached, or fail with
  \<open>TimeoutError\<close>; (6) read the return value from its register; (7) restore the saved
  context. A second \<open>invoke\<close> while one is in flight fails with \<open>SessionBusyError\<close>; a
  closed session fails with \<open>SessionClosedError\<close>.

  The target is its run state, its registers, its stack (the words in use, top first)
  and the rest of its memory, of any type \<open>'m\<close>. The calling convention is the number of
  argument registers and the trap address. A target function is its entry address, its
  number of parameters, its C semantics (\<open>body\<close>: from the arguments and memory to the
  returned word and the new memory, \<open>None\<close> if it never returns) and whatever its
  compiled code leaves in the other registers and on the stack.
\<close>

datatype run_state = DISCONNECTED | HALTED | RUNNING

datatype reg = ArgReg nat | ReturnAddress | ProgramCounter | OtherReg nat

record 'm target =
  state :: run_state
  call_in_flight :: bool
  regs :: "reg \<Rightarrow> u32"
  stack :: "u32 list"
  memory :: 'm

record abi =
  arg_regs :: nat
  trap :: addr

record 'm target_function =
  entry :: addr
  arity :: nat
  body :: "u32 list \<Rightarrow> 'm \<Rightarrow> (u32 \<times> 'm) option"
  leaves_regs :: "(reg \<Rightarrow> u32) \<Rightarrow> reg \<Rightarrow> u32"
  leaves_stack :: "u32 list \<Rightarrow> u32 list"

subsection \<open>The steps of the protocol\<close>

definition halt :: "'m target \<Rightarrow> 'm target" where
  "halt t = t\<lparr>state := HALTED\<rparr>"

text \<open>
  Step (2). The registers that receive an argument, and the arguments that do not fit
  the registers: these are written below the words of the stack that are in use, and
  become part of the stack when step (4) adjusts it.
\<close>

definition holds_argument :: "abi \<Rightarrow> u32 list \<Rightarrow> reg \<Rightarrow> bool" where
  "holds_argument cc args r =
     (case r of ArgReg k \<Rightarrow> k < arg_regs cc \<and> k < length args | _ \<Rightarrow> False)"

definition write_arg_regs :: "abi \<Rightarrow> u32 list \<Rightarrow> (reg \<Rightarrow> u32) \<Rightarrow> reg \<Rightarrow> u32" where
  "write_arg_regs cc args rs =
     (\<lambda>r. case r of
            ArgReg k \<Rightarrow> if k < arg_regs cc \<and> k < length args then args ! k else rs r
          | _ \<Rightarrow> rs r)"

definition place_args :: "abi \<Rightarrow> u32 list \<Rightarrow> 'm target \<Rightarrow> 'm target" where
  "place_args cc args t = t\<lparr>regs := write_arg_regs cc args (regs t)\<rparr>"

definition spilled :: "abi \<Rightarrow> u32 list \<Rightarrow> u32 list" where
  "spilled cc args = drop (arg_regs cc) args"

definition synthetic_call :: "abi \<Rightarrow> 'm target_function \<Rightarrow> u32 list \<Rightarrow> 'm target \<Rightarrow> 'm target" where
  "synthetic_call cc f args t =
     t\<lparr>regs := (regs t)(ProgramCounter := entry f, ReturnAddress := trap cc),
       stack := spilled cc args @ stack t\<rparr>"

text \<open>
  Step (5). The compiled function takes its first arguments from the argument
  registers and the others from the top of the stack, runs its body, and returns to
  the return address with the result in the first argument register.
\<close>

definition fetch_args :: "abi \<Rightarrow> nat \<Rightarrow> 'm target \<Rightarrow> u32 list option" where
  "fetch_args cc n t =
     (if length (stack t) < n - arg_regs cc then None
      else Some (map (\<lambda>k. if k < arg_regs cc then regs t (ArgReg k)
                           else stack t ! (k - arg_regs cc)) [0..<n]))"

definition resume_until_trap :: "abi \<Rightarrow> 'm target_function \<Rightarrow> 'm target \<Rightarrow> 'm target option" where
  "resume_until_trap cc f t =
     (if regs t ProgramCounter \<noteq> entry f \<or> regs t ReturnAddress \<noteq> trap cc then None
      else (case fetch_args cc (arity f) t of
              None \<Rightarrow> None
            | Some xs \<Rightarrow>
                (case body f xs (memory t) of
                   None \<Rightarrow> None
                 | Some (r, m') \<Rightarrow>
                     Some (t\<lparr>state := HALTED,
                             regs := (leaves_regs f (regs t))
                                       (ArgReg 0 := r, ProgramCounter := trap cc),
                             stack := leaves_stack f (stack t),
                             memory := m'\<rparr>))))"

text \<open>
  Modelled from the spec: \<open>invoke\<close>, steps (1) to (7) of section 4.5 in their order. An
  argument list that does not match the parameters of the function is a
  \<open>TypeMismatchError\<close>.
\<close>

definition invoke ::
  "abi \<Rightarrow> 'm target_function \<Rightarrow> u32 list \<Rightarrow> 'm target \<Rightarrow> error + (u32 \<times> 'm target)" where
  "invoke cc f args t =
     (if state t = DISCONNECTED then Inl SessionClosedError
      else if call_in_flight t then Inl SessionBusyError
      else if length args \<noteq> arity f then Inl TypeMismatchError
      else
        let t1 = (halt t)\<lparr>call_in_flight := True\<rparr>;
            t2 = place_args cc args t1;
            saved_regs = regs t2;
            saved_stack = stack t2;
            t3 = synthetic_call cc f args t2
        in (case resume_until_trap cc f t3 of
              None \<Rightarrow> Inl TimeoutError
            | Some t4 \<Rightarrow>
                let ret = regs t4 (ArgReg 0);
                    t5 = t4\<lparr>regs := saved_regs, stack := saved_stack,
                            call_in_flight := False, state := state t\<rparr>
                in Inr (ret, t5)))"

subsection \<open>Arguments arrive intact; the context is restored\<close>

lemma fetch_placed_args:
  "fetch_args cc (length args) (synthetic_call cc f args (place_args cc args t)) = Some args"
proof -
  let ?t = "synthetic_call cc f args (place_args cc args t)"
  let ?slot = "\<lambda>k. if k < arg_regs cc then regs ?t (ArgReg k) else stack ?t ! (k - arg_regs cc)"
  have slot: "?slot k = args ! k" if "k < length args" for k
    using that
    by (auto simp add: synthetic_call_def place_args_def write_arg_regs_def spilled_def
        nth_append)
  have "map ?slot [0..<length args] = args"
  proof (rule nth_equalityI)
    show "length (map ?slot [0..<length args]) = length args"
      by simp
  next
    fix i assume "i < length (map ?slot [0..<length args])"
    then have i: "i < length args" by simp
    from slot [OF i] i show "map ?slot [0..<length args] ! i = args ! i"
      by (simp split: if_splits)
  qed
  moreover have "\<not> length (stack ?t) < length args - arg_regs cc"
    by (simp add: synthetic_call_def place_args_def spilled_def)
  ultimately show ?thesis
    by (simp add: fetch_args_def)
qed

lemma invoke_runs_body:
  assumes "state t \<noteq> DISCONNECTED" and "\<not> call_in_flight t" and "length args = arity f"
  shows "invoke cc f args t =
           (case body f args (memory t) of
              None \<Rightarrow> Inl TimeoutError
            | Some (r, m') \<Rightarrow> Inr (r, (place_args cc args t)\<lparr>memory := m'\<rparr>))"
proof -
  let ?t1 = "(halt t)\<lparr>call_in_flight := True\<rparr>"
  let ?t3 = "synthetic_call cc f args (place_args cc args ?t1)"
  have fetch: "fetch_args cc (arity f) ?t3 = Some args"
    using fetch_placed_args [of cc args f ?t1] assms(3) by simp
  have pc: "regs ?t3 ProgramCounter = entry f" "regs ?t3 ReturnAddress = trap cc"
    and mem: "memory ?t3 = memory t"
    by (simp_all add: synthetic_call_def place_args_def halt_def)
  note defs = invoke_def resume_until_trap_def Let_def
  show ?thesis
  proof (cases "body f args (memory t)")
    case None
    with assms fetch pc mem show ?thesis
      by (simp add: defs)
  next
    case (Some rm)
    obtain r m' where rm: "rm = (r, m')" by (cases rm)
    with Some assms fetch pc mem show ?thesis
      by (simp add: defs) (simp add: synthetic_call_def place_args_def halt_def)
  qed
qed

lemma invoke_Inr:
  assumes "invoke cc f args t = Inr (ret, t')"
  shows "state t \<noteq> DISCONNECTED" and "\<not> call_in_flight t" and "length args = arity f"
    and "body f args (memory t) = Some (ret, memory t')"
    and "t' = (place_args cc args t)\<lparr>memory := memory t'\<rparr>"
proof -
  from assms show pre: "state t \<noteq> DISCONNECTED" "\<not> call_in_flight t" "length args = arity f"
    by (auto simp: invoke_def split: if_splits)
  from assms invoke_runs_body [OF pre, of cc]
  show "body f args (memory t) = Some (ret, memory t')"
    and "t' = (place_args cc args t)\<lparr>memory := memory t'\<rparr>"
    by (auto split: option.splits)
qed

lemma place_args_other_reg:
  "\<not> holds_argument cc args r \<Longrightarrow> regs (place_args cc args t) r = regs t r"
  by (cases r) (auto simp add: place_args_def write_arg_regs_def holds_argument_def)

text \<open>
  Some functions of the example as target functions, at made-up addresses, compiled so
  that they leave the registers other than the return register, and the stack, as they
  found them. \<open>reg_func_ptr_a\<close> returns \<open>void\<close>: the word in the return register
  is taken to be 0. The calling convention of the Cortex-M targets passes the first
  four words in registers.
\<close>

definition compiled :: "addr \<Rightarrow> nat \<Rightarrow> (u32 list \<Rightarrow> 'm \<Rightarrow> (u32 \<times> 'm) option) \<Rightarrow> 'm target_function" where
  "compiled at n code =
     \<lparr>entry = at, arity = n, body = code, leaves_regs = (\<lambda>rs. rs), leaves_stack = (\<lambda>st. st)\<rparr>"

definition target_example_Addition :: "'m target_function" where
  "target_example_Addition =
     compiled 0x08000100 2
       (\<lambda>xs m. case xs of [x, y] \<Rightarrow> Some (example_Addition x y, m) | _ \<Rightarrow> None)"

definition target_example_ManyArgs :: "'m target_function" where
  "target_example_ManyArgs =
     compiled 0x08000140 6
       (\<lambda>xs m. case xs of
                  [x1, x2, x3, x4, x5, x6] \<Rightarrow> Some (example_ManyArgs x1 x2 x3 x4 x5 x6, m)
                | _ \<Rightarrow> None)"

definition target_reg_func_ptr_a :: "globals target_function" where
  "target_reg_func_ptr_a = compiled 0x08000180 0 (\<lambda>xs g. Some (0, reg_func_ptr_a g))"

definition cortex_m :: abi where
  "cortex_m = \<lparr>arg_regs = 4, trap = 0x20003FF0\<rparr>"

definition halted_target :: "globals target" where
  "halted_target =
     \<lparr>state = HALTED, call_in_flight = False, regs = (\<lambda>r. 0), stack = [],
      memory = globals_init\<rparr>"

text \<open>
  C3, as amended. After \<open>invoke\<close> returns, every register that does not hold an argument
  of the call is what it was before the call, and so are the stack and the run state,
  whatever the compiled function left in them. Memory is exactly what the called
  function's C semantics makes of it: every location that the function leaves alone
  holds its old value, and a location that the function writes keeps the new one.
\<close>

theorem invoke_restores_context:
  assumes "invoke cc f args t = Inr (ret, t')"
  shows "(\<forall>r. \<not> holds_argument cc args r \<longrightarrow> regs t' r = regs t r) \<and>
         stack t' = stack t \<and> state t' = state t \<and>
         body f args (memory t) = Some (ret, memory t') \<and>
         (\<forall>loc. (\<forall>xs m r m'. body f xs m = Some (r, m') \<longrightarrow> loc m' = loc m) \<longrightarrow>
                loc (memory t') = loc (memory t))"
proof -
  let ?t2 = "place_args cc args t"
  from invoke_Inr(5) [OF assms] have "regs t' = regs (?t2\<lparr>memory := memory t'\<rparr>)"
    "stack t' = stack (?t2\<lparr>memory := memory t'\<rparr>)" "state t' = state (?t2\<lparr>memory := memory t'\<rparr>)"
    by simp_all
  then have "regs t' = regs ?t2" "stack t' = stack t" "state t' = state t"
    by (simp_all add: place_args_def)
  moreover have "regs ?t2 r = regs t r" if "\<not> holds_argument cc args r" for r
    using that by (rule place_args_other_reg)
  moreover note invoke_Inr(4) [OF assms]
  ultimately show ?thesis by metis
qed

theorem invoke_restores_context_witness:
  "\<exists>t'. invoke cortex_m target_example_ManyArgs [1, 2, 3, 4, 5, 6] halted_target = Inr (21, t') \<and>
      regs t' ProgramCounter = regs halted_target ProgramCounter \<and>
      regs t' (ArgReg 5) = regs halted_target (ArgReg 5) \<and>
      stack t' = stack halted_target \<and> state t' = state halted_target \<and>
      func_a (memory t') = func_a (memory halted_target)"
proof -
  let ?t' = "(place_args cortex_m [1, 2, 3, 4, 5, 6] halted_target)\<lparr>memory := globals_init\<rparr>"
  have run: "invoke cortex_m target_example_ManyArgs [1, 2, 3, 4, 5, 6] halted_target
      = Inr (21, ?t')"
    by (subst invoke_runs_body)
      (simp_all add: halted_target_def target_example_ManyArgs_def compiled_def
        example_ManyArgs_def)
  have "\<not> holds_argument cortex_m [1, 2, 3, 4, 5, 6] ProgramCounter"
    "\<not> holds_argument cortex_m [1, 2, 3, 4, 5, 6] (ArgReg 5)"
    by (simp_all add: holds_argument_def cortex_m_def)
  moreover have "\<forall>xs m r m'. body target_example_ManyArgs xs m = Some (r, m') \<longrightarrow>
      func_a m' = func_a m"
    by (auto simp: target_example_ManyArgs_def compiled_def split: list.splits)
  ultimately show ?thesis
    using invoke_restores_context [OF run] run by blast
qed

text \<open>
  The claim as stated fails for a function with a side effect. \<open>reg_func_ptr_a\<close> has
  no argument and no return value, and after invoking it the global \<open>func_a\<close> is no
  longer \<open>NULL\<close>: the running program sees \<open>example_FunctionPointers\<close> return 62
  where it returned 30.
\<close>

theorem invoke_changes_func_a:
  "\<exists>ret t'. invoke cortex_m target_reg_func_ptr_a [] halted_target = Inr (ret, t') \<and>
       regs t' = regs halted_target \<and>
       func_a (memory t') \<noteq> func_a (memory halted_target) \<and>
       example_FunctionPointers (memory halted_target) = 30 \<and>
       example_FunctionPointers (memory t') = 62"
proof -
  have "place_args cortex_m [] halted_target = halted_target"
    by (simp add: place_args_def write_arg_regs_def halted_target_def fun_eq_iff
        split: reg.splits)
  then have "invoke cortex_m target_reg_func_ptr_a [] halted_target
      = Inr (0, halted_target\<lparr>memory := reg_func_ptr_a globals_init\<rparr>)"
    by (subst invoke_runs_body)
      (simp_all add: halted_target_def target_reg_func_ptr_a_def compiled_def)
  moreover have "func_a (reg_func_ptr_a globals_init) \<noteq> func_a globals_init"
    by (simp add: reg_func_ptr_a_def globals_init_def)
  moreover have "example_FunctionPointers globals_init = 30"
    by (simp add: example_FunctionPointers_def globals_init_def)
  moreover have "example_FunctionPointers (reg_func_ptr_a globals_init) = 62"
    by (simp add: example_FunctionPointers_def reg_func_ptr_a_def example_GetA_def)
  ultimately show ?thesis
    by (simp add: halted_target_def)
qed

text \<open>Scenario A of the spec through the engine.\<close>

lemma invoke_example_Addition:
  "\<exists>t'. invoke cc target_example_Addition [31, 11] halted_target = Inr (42, t')"
  by (subst invoke_runs_body)
    (simp_all add: halted_target_def target_example_Addition_def compiled_def
      example_Addition_def)

subsection \<open>Arguments beyond the register budget\<close>

text \<open>
  What the call engine and the calling convention do with an argument list: the
  registers \<open>ArgReg k\<close> get the first \<open>arg_regs\<close> arguments, the others go on top of the
  stack in their order, and the called function reads back the list it was passed.
\<close>

lemma placed_stack:
  "stack (synthetic_call cc f args (place_args cc args t)) = drop (arg_regs cc) args @ stack t"
  by (simp add: synthetic_call_def place_args_def spilled_def)

lemma placed_reg:
  "k < arg_regs cc \<Longrightarrow> k < length args \<Longrightarrow>
     regs (synthetic_call cc f args (place_args cc args t)) (ArgReg k) = args ! k"
  by (simp add: synthetic_call_def place_args_def write_arg_regs_def)

text \<open>
  C5. For all six \<open>uint32_t\<close> arguments and every register budget, invoking
  \<open>example_ManyArgs\<close> returns their sum modulo \<open>2 ^ 32\<close>. The arguments within the
  budget are in the argument registers; the arguments beyond it are spilled to the
  stack, in their order and on top of what was there; the function reads all six as
  they were passed, none truncated or dropped. This holds for every compiled form of
  the function, whatever else it leaves in the registers and on the stack.
\<close>

theorem invoke_example_ManyArgs_spills:
  assumes "state t \<noteq> DISCONNECTED" and "\<not> call_in_flight t"
    and "arity f = 6" and "body f = body target_example_ManyArgs"
  shows "\<exists>ret t'.
           invoke cc f [x1, x2, x3, x4, x5, x6] t = Inr (ret, t') \<and>
           ret = example_ManyArgs x1 x2 x3 x4 x5 x6 \<and>
           unat ret = (unat x1 + unat x2 + unat x3 + unat x4 + unat x5 + unat x6) mod 2 ^ 32 \<and>
           (\<forall>k. k < arg_regs cc \<and> k < 6 \<longrightarrow>
              regs (synthetic_call cc f [x1, x2, x3, x4, x5, x6]
                     (place_args cc [x1, x2, x3, x4, x5, x6] t)) (ArgReg k)
                = [x1, x2, x3, x4, x5, x6] ! k) \<and>
           stack (synthetic_call cc f [x1, x2, x3, x4, x5, x6]
                    (place_args cc [x1, x2, x3, x4, x5, x6] t))
             = drop (arg_regs cc) [x1, x2, x3, x4, x5, x6] @ stack t \<and>
           fetch_args cc (arity f)
               (synthetic_call cc f [x1, x2, x3, x4, x5, x6]
                  (place_args cc [x1, x2, x3, x4, x5, x6] t))
             = Some [x1, x2, x3, x4, x5, x6]"
proof -
  let ?args = "[x1, x2, x3, x4, x5, x6]"
  have len: "length ?args = arity f"
    using assms(3) by simp
  have code: "body f ?args (memory t) = Some (example_ManyArgs x1 x2 x3 x4 x5 x6, memory t)"
    using assms(4) by (simp add: target_example_ManyArgs_def compiled_def)
  have run: "invoke cc f ?args t
      = Inr (example_ManyArgs x1 x2 x3 x4 x5 x6, (place_args cc ?args t)\<lparr>memory := memory t\<rparr>)"
    using invoke_runs_body [OF assms(1,2) len, of cc] code by simp
  have in_regs: "\<forall>k. k < arg_regs cc \<and> k < 6 \<longrightarrow>
      regs (synthetic_call cc f ?args (place_args cc ?args t)) (ArgReg k) = ?args ! k"
    using placed_reg [of _ cc ?args f t] by simp
  have fetched: "fetch_args cc (arity f) (synthetic_call cc f ?args (place_args cc ?args t))
      = Some ?args"
    using fetch_placed_args [of cc ?args f t] len by simp
  from run in_regs fetched placed_stack [of cc f ?args t]
    example_ManyArgs_sum [of x1 x2 x3 x4 x5 x6]
  show ?thesis by blast
qed

theorem invoke_example_ManyArgs_spills_witness:
  "\<exists>t'. invoke cortex_m target_example_ManyArgs [10, 20, 30, 40, 50, 60] halted_target
           = Inr (210, t') \<and>
        stack (synthetic_call cortex_m target_example_ManyArgs [10, 20, 30, 40, 50, 60]
                 (place_args cortex_m [10, 20, 30, 40, 50, 60] halted_target)) = [50, 60] \<and>
        fetch_args cortex_m 6
            (synthetic_call cortex_m target_example_ManyArgs [10, 20, 30, 40, 50, 60]
               (place_args cortex_m [10, 20, 30, 40, 50, 60] halted_target))
          = Some [10, 20, 30, 40, 50, 60]"
proof -
  have pre: "state halted_target \<noteq> DISCONNECTED" "\<not> call_in_flight halted_target"
    "arity (target_example_ManyArgs :: globals target_function) = 6"
    "body (target_example_ManyArgs :: globals target_function) = body target_example_ManyArgs"
    by (simp_all add: halted_target_def target_example_ManyArgs_def compiled_def)
  have sum: "example_ManyArgs 10 20 30 40 50 60 = 210"
    by (simp add: example_ManyArgs_def)
  have top: "drop (arg_regs cortex_m) [10, 20, 30, 40, 50, 60 :: u32] @ stack halted_target
      = [50, 60]"
    by (simp add: cortex_m_def halted_target_def)
  from invoke_example_ManyArgs_spills [OF pre, of cortex_m 10 20 30 40 50 60] sum top pre(3)
  show ?thesis by auto
qed

end
